theory Spec2Isabelle
  imports Main "HOL-Library.Log_Nat"
begin

section \<open>JavaScript numbers and the duration argument\<close>

text \<open>
  The store of \<^verbatim>\<open>otpStore.js\<close> computes with JavaScript Numbers: the clock reading
  \<^verbatim>\<open>Date.now()\<close>, the requested duration and the expiry timestamp. A Number is NaN, one
  of the two infinities, or finite. The finite values that occur are millisecond counts;
  they are carried as integers, and sums of them are exact.
\<close>

datatype jsnum = NaN | NegInf | Fin int | PosInf

text \<open>The relational operator \<^verbatim>\<open>a < b\<close>: false as soon as one side is NaN.\<close>

fun js_lt :: "jsnum \<Rightarrow> jsnum \<Rightarrow> bool" where
  "js_lt NaN b = False"
| "js_lt a NaN = False"
| "js_lt a NegInf = False"
| "js_lt NegInf b = True"
| "js_lt PosInf b = False"
| "js_lt (Fin a) PosInf = True"
| "js_lt (Fin a) (Fin b) = (a < b)"

text \<open>
  \<^verbatim>\<open>a <= b\<close> is evaluated as "\<^verbatim>\<open>b < a\<close> is neither true nor undefined", so it is false
  when a side is NaN; \<^verbatim>\<open>a > b\<close> is \<^verbatim>\<open>b < a\<close>.
\<close>

definition js_le :: "jsnum \<Rightarrow> jsnum \<Rightarrow> bool" where
  "js_le a b = (a \<noteq> NaN \<and> b \<noteq> NaN \<and> \<not> js_lt b a)"

definition js_gt :: "jsnum \<Rightarrow> jsnum \<Rightarrow> bool" where
  "js_gt a b = js_lt b a"

text \<open>The operator \<^verbatim>\<open>a + b\<close> on Numbers.\<close>

fun js_add :: "jsnum \<Rightarrow> jsnum \<Rightarrow> jsnum" where
  "js_add NaN b = NaN"
| "js_add a NaN = NaN"
| "js_add PosInf NegInf = NaN"
| "js_add NegInf PosInf = NaN"
| "js_add PosInf b = PosInf"
| "js_add a PosInf = PosInf"
| "js_add NegInf b = NegInf"
| "js_add a NegInf = NegInf"
| "js_add (Fin a) (Fin b) = Fin (a + b)"

text \<open>\<^verbatim>\<open>Math.min(a, b)\<close>: NaN if an argument is NaN, the smaller one otherwise.\<close>

definition Math_min :: "jsnum \<Rightarrow> jsnum \<Rightarrow> jsnum" where
  "Math_min a b = (if a = NaN \<or> b = NaN then NaN else if js_lt b a then b else a)"

text \<open>
  \<^verbatim>\<open>x || 0\<close> on a Number \<open>x\<close>: the falsy Numbers are NaN and zero, every other Number is
  returned as it is.
\<close>

definition or_zero :: "jsnum \<Rightarrow> jsnum" where
  "or_zero x = (if x = NaN \<or> x = Fin 0 then Fin 0 else x)"

text \<open>
  The values \<^verbatim>\<open>durationMs\<close> is called with: a Number, or \<^verbatim>\<open>undefined\<close> (the argument
  is missing), \<^verbatim>\<open>null\<close> or a boolean. \<open>Number_js\<close> is the coercion \<^verbatim>\<open>Number(v)\<close> on
  them. A string or an object enters the arithmetic only through the Number its coercion
  yields, so a call with such an argument is the call with that Number; for a string that
  is not a numeric literal it is \<open>JSNumber NaN\<close>.
\<close>

datatype jsval = JSUndefined | JSNull | JSBoolean bool | JSNumber jsnum

fun Number_js :: "jsval \<Rightarrow> jsnum" where
  "Number_js JSUndefined = NaN"
| "Number_js JSNull = Fin 0"
| "Number_js (JSBoolean b) = (if b then Fin 1 else Fin 0)"
| "Number_js (JSNumber n) = n"

section \<open>The store\<close>

text \<open>
  \<^verbatim>\<open>Map<passcode, { expiresAt: number, used: boolean }>\<close>. A JavaScript Map keeps its
  entries in insertion order and iterates in that order, so the store is an association
  list: \<^verbatim>\<open>set\<close> overwrites the value of a key in place or appends a new entry,
  \<^verbatim>\<open>delete\<close> removes the entry of a key, \<^verbatim>\<open>get\<close> returns the value or
  \<^verbatim>\<open>undefined\<close> (here \<open>None\<close>).
\<close>

record entry =
  expiresAt :: jsnum
  used :: bool

type_synonym store = "(int \<times> entry) list"

fun Map_set :: "int \<Rightarrow> entry \<Rightarrow> store \<Rightarrow> store" where
  "Map_set k v [] = [(k, v)]"
| "Map_set k v ((k', v') # m) = (if k' = k then (k, v) # m else (k', v') # Map_set k v m)"

fun Map_delete :: "int \<Rightarrow> store \<Rightarrow> store" where
  "Map_delete k [] = []"
| "Map_delete k ((k', v') # m) = (if k' = k then Map_delete k m else (k', v') # Map_delete k m)"

fun Map_get :: "store \<Rightarrow> int \<Rightarrow> entry option" where
  "Map_get [] k = None"
| "Map_get ((k', v') # m) k = (if k' = k then Some v' else Map_get m k)"

definition Map_has :: "store \<Rightarrow> int \<Rightarrow> bool" where
  "Map_has m k = (k \<in> fst ` set m)"

definition MAX_MS :: int where
  "MAX_MS = 5 * 60 * 1000"

text \<open>\<^verbatim>\<open>createOtpStore\<close> starts from \<^verbatim>\<open>new Map()\<close>.\<close>

definition createOtpStore :: store where
  "createOtpStore = []"

subsection \<open>The sweep\<close>

text \<open>
  \<^verbatim>\<open>purgeExpired\<close> reads the clock once and visits the entries of the store; the body of
  its loop is \<open>purge_step\<close>. Deleting the entry being visited does not disturb the
  iteration of a Map, so the loop visits every entry the store had on entry, in insertion
  order. \<open>purge_visit\<close> is the loop over an arbitrary list of visited entries.
\<close>

definition purge_step :: "int \<Rightarrow> int \<times> entry \<Rightarrow> store \<Rightarrow> store" where
  "purge_step now kv m =
     (case kv of (key, val) \<Rightarrow>
        if js_le (expiresAt val) (Fin now) \<or> used val then Map_delete key m else m)"

definition purge_visit :: "int \<Rightarrow> (int \<times> entry) list \<Rightarrow> store \<Rightarrow> store" where
  "purge_visit now visited m = fold (purge_step now) visited m"

definition purgeExpired :: "int \<Rightarrow> store \<Rightarrow> store" where
  "purgeExpired now m = purge_visit now m m"

subsection \<open>The documented implementation\<close>

text \<open>
  Every \<^verbatim>\<open>Date.now()\<close> is a separate reading of the clock. \<open>issue\<close> reads it in its sweep
  (\<open>t0\<close>) and for \<^verbatim>\<open>now\<close> (\<open>t1\<close>); \<open>useOnce\<close> reads it in its first sweep (\<open>t0\<close>), for
  \<^verbatim>\<open>now\<close> (\<open>t1\<close>) and in the trailing sweep (\<open>t2\<close>). The functions return the result
  and the store they leave.
\<close>

definition cappedDuration :: "jsval \<Rightarrow> jsnum" where
  "cappedDuration durationMs = Math_min (or_zero (Number_js durationMs)) (Fin MAX_MS)"

definition issue :: "int \<Rightarrow> jsval \<Rightarrow> int \<Rightarrow> int \<Rightarrow> store \<Rightarrow> bool \<times> store" where
  "issue passcode durationMs t0 t1 m =
     (let m1 = purgeExpired t0 m;
          now = Fin t1;
          existedAndUnexpired =
            (case Map_get m1 passcode of
               None \<Rightarrow> False
             | Some existingEntry \<Rightarrow> js_gt (expiresAt existingEntry) now \<and> \<not> used existingEntry)
      in (existedAndUnexpired,
          Map_set passcode \<lparr>expiresAt = js_add now (cappedDuration durationMs), used = False\<rparr> m1))"

definition useOnce :: "int \<Rightarrow> int \<Rightarrow> int \<Rightarrow> int \<Rightarrow> store \<Rightarrow> bool \<times> store" where
  "useOnce passcode t0 t1 t2 m =
     (let m1 = purgeExpired t0 m in
      case Map_get m1 passcode of
        None \<Rightarrow> (False, m1)
      | Some e \<Rightarrow>
          if js_le (expiresAt e) (Fin t1) \<or> used e then (False, Map_delete passcode m1)
          else (True, purgeExpired t2 (Map_set passcode (e\<lparr>used := True\<rparr>) m1)))"

subsection \<open>The compact implementation\<close>

text \<open>The second \<^verbatim>\<open>createOtpStore\<close> of the file; its sweep has the same text as the first.\<close>

definition purgeExpired_compact :: "int \<Rightarrow> store \<Rightarrow> store" where
  "purgeExpired_compact now m =
     fold (\<lambda>(k, v) m'. if js_le (expiresAt v) (Fin now) \<or> used v then Map_delete k m' else m') m m"

definition issue_compact :: "int \<Rightarrow> jsval \<Rightarrow> int \<Rightarrow> int \<Rightarrow> store \<Rightarrow> bool \<times> store" where
  "issue_compact passcode durationMs t0 t1 m =
     (let m1 = purgeExpired_compact t0 m;
          capped = Math_min (or_zero (Number_js durationMs)) (Fin MAX_MS);
          now = Fin t1;
          existedAndUnexpired = Map_has m1 passcode
      in (existedAndUnexpired, Map_set passcode \<lparr>expiresAt = js_add now capped, used = False\<rparr> m1))"

definition useOnce_compact :: "int \<Rightarrow> int \<Rightarrow> int \<Rightarrow> int \<Rightarrow> store \<Rightarrow> bool \<times> store" where
  "useOnce_compact passcode t0 t1 t2 m =
     (let m1 = purgeExpired_compact t0 m in
      case Map_get m1 passcode of
        None \<Rightarrow> (False, m1)
      | Some e \<Rightarrow>
          if js_le (expiresAt e) (Fin t1) \<or> used e then (False, Map_delete passcode m1)
          else (True, purgeExpired_compact t2 (Map_set passcode (e\<lparr>used := True\<rparr>) m1)))"

subsection \<open>Sequences of calls\<close>

text \<open>
  A call of the public interface together with the clock readings it makes, in the order
  in which it makes them.
\<close>

datatype call = Issue int jsval int int | UseOnce int int int int

fun perform :: "call \<Rightarrow> store \<Rightarrow> bool \<times> store" where
  "perform (Issue c d t0 t1) m = issue c d t0 t1 m"
| "perform (UseOnce c t0 t1 t2) m = useOnce c t0 t1 t2 m"

fun perform_compact :: "call \<Rightarrow> store \<Rightarrow> bool \<times> store" where
  "perform_compact (Issue c d t0 t1) m = issue_compact c d t0 t1 m"
| "perform_compact (UseOnce c t0 t1 t2) m = useOnce_compact c t0 t1 t2 m"

text \<open>Running a sequence of calls: the results in order, and the final store.\<close>

fun run :: "call list \<Rightarrow> store \<Rightarrow> bool list \<times> store" where
  "run [] m = ([], m)"
| "run (c # cs) m =
     (case perform c m of (r, m') \<Rightarrow> (case run cs m' of (rs, m'') \<Rightarrow> (r # rs, m'')))"

fun run_compact :: "call list \<Rightarrow> store \<Rightarrow> bool list \<times> store" where
  "run_compact [] m = ([], m)"
| "run_compact (c # cs) m =
     (case perform_compact c m of (r, m') \<Rightarrow>
        (case run_compact cs m' of (rs, m'') \<Rightarrow> (r # rs, m'')))"

text \<open>
  Which code a call issues or tries to redeem, and the results of the attempts to redeem
  one code \<open>c\<close> during a run, in order.
\<close>

fun issues_code :: "int \<Rightarrow> call \<Rightarrow> bool" where
  "issues_code c (Issue c' d t0 t1) = (c' = c)"
| "issues_code c (UseOnce c' t0 t1 t2) = False"

fun redeems_code :: "int \<Rightarrow> call \<Rightarrow> bool" where
  "redeems_code c (Issue c' d t0 t1) = False"
| "redeems_code c (UseOnce c' t0 t1 t2) = (c' = c)"

fun redemptions :: "int \<Rightarrow> call list \<Rightarrow> store \<Rightarrow> bool list" where
  "redemptions c [] m = []"
| "redemptions c (x # xs) m =
     (case perform x m of (r, m') \<Rightarrow>
        if redeems_code c x then r # redemptions c xs m' else redemptions c xs m')"

text \<open>
  The stores at the boundaries of a run: before the first call and after every call.
\<close>

fun boundaries :: "call list \<Rightarrow> store \<Rightarrow> store list" where
  "boundaries [] m = [m]"
| "boundaries (x # xs) m = m # boundaries xs (snd (perform x m))"

text \<open>A call whose clock readings are all the same instant.\<close>

fun single_clock :: "call \<Rightarrow> bool" where
  "single_clock (Issue c d t0 t1) = (t0 = t1)"
| "single_clock (UseOnce c t0 t1 t2) = (t0 = t1 \<and> t1 = t2)"

section \<open>Vocabulary of the specification\<close>

text \<open>
  A live entry is unexpired (\<^verbatim>\<open>expiresAt > now\<close>) and unconsumed; \<open>stale\<close> is the test of
  the sweep, \<^verbatim>\<open>expiresAt <= now || used\<close>.
\<close>

definition live :: "int \<Rightarrow> entry \<Rightarrow> bool" where
  "live now e = (js_gt (expiresAt e) (Fin now) \<and> \<not> used e)"

definition stale :: "int \<Rightarrow> entry \<Rightarrow> bool" where
  "stale now e = (js_le (expiresAt e) (Fin now) \<or> used e)"

text \<open>No entry of the store is consumed.\<close>

definition no_used :: "store \<Rightarrow> bool" where
  "no_used m = (\<forall>kv \<in> set m. \<not> used (snd kv))"

text \<open>
  The stores the program can be in: a Map holds one entry for a key, and no expiry
  timestamp is NaN (\<open>issue\<close>, the only writer of new entries, adds a capped duration to a
  clock reading). The empty store is one, and both operations keep the property.
\<close>

definition store_ok :: "store \<Rightarrow> bool" where
  "store_ok m = (distinct (map fst m) \<and> (\<forall>kv \<in> set m. expiresAt (snd kv) \<noteq> NaN))"

section \<open>Numbers as IEEE doubles\<close>

text \<open>
  The model above carries finite Numbers as whole milliseconds and adds them exactly. What
  \<open>issue\<close> does with a duration that is not a whole number of milliseconds, or with one so
  large that the sum \<^verbatim>\<open>now + cappedDuration\<close> is rounded, and what it does with an argument
  that cannot be converted to a Number, is outside it. For the statements that depend on
  these, the store is modelled a second time with Numbers as IEEE 754 doubles: a finite
  Number is the rational it denotes (every double is one; the statements hold for all
  rationals), and the sum of two finite Numbers is rounded to the nearest double, ties to the
  even significand, overflowing to an infinity. The two zeros of the doubles are one value
  here: they compare equal, are both falsy, and add alike.
\<close>

datatype num64 = NaN64 | NegInf64 | Fin64 rat | PosInf64

text \<open>Rounding a rational to the nearest integer, a tie to the even one.\<close>

definition round_half_even :: "rat \<Rightarrow> int" where
  "round_half_even r =
     (let f = \<lfloor>r\<rfloor>; t = r - of_int f
      in if t < 1 / 2 then f else if 1 / 2 < t then f + 1 else if even f then f else f + 1)"

text \<open>
  \<open>lg2 x\<close> is the binary exponent of a positive \<open>x\<close>, the \<open>l\<close> with \<open>2 powi l \<le> x < 2 powi (l + 1)\<close>,
  from the bit lengths of numerator and denominator. A double with binary exponent \<open>l\<close> is
  a multiple of \<open>2 powi (l - 52)\<close> (53 significant bits); below the smallest normal exponent
  the spacing stays \<open>2 powi (- 1074)\<close>.
\<close>

definition lg2 :: "rat \<Rightarrow> int" where
  "lg2 x = (case quotient_of x of (p, q) \<Rightarrow>
              let k = bitlen p - bitlen q in if 2 powi k \<le> x then k else k - 1)"

definition quantum_exp :: "rat \<Rightarrow> int" where
  "quantum_exp x = max (- 1074) (lg2 \<bar>x\<bar> - 52)"

definition rounded :: "rat \<Rightarrow> rat" where
  "rounded x = of_int (round_half_even (x / 2 powi quantum_exp x)) * 2 powi quantum_exp x"

definition to_double :: "rat \<Rightarrow> num64" where
  "to_double x =
     (if x = 0 then Fin64 0
      else if 2 ^ 1024 \<le> rounded x then PosInf64
      else if rounded x \<le> - (2 ^ 1024) then NegInf64
      else Fin64 (rounded x))"

text \<open>The operators \<^verbatim>\<open><\<close>, \<^verbatim>\<open><=\<close>, \<^verbatim>\<open>>\<close> and \<^verbatim>\<open>+\<close>, \<^verbatim>\<open>Math.min\<close> and \<^verbatim>\<open>x || 0\<close> on these Numbers.\<close>

fun lt64 :: "num64 \<Rightarrow> num64 \<Rightarrow> bool" where
  "lt64 NaN64 b = False"
| "lt64 a NaN64 = False"
| "lt64 a NegInf64 = False"
| "lt64 NegInf64 b = True"
| "lt64 PosInf64 b = False"
| "lt64 (Fin64 a) PosInf64 = True"
| "lt64 (Fin64 a) (Fin64 b) = (a < b)"

definition le64 :: "num64 \<Rightarrow> num64 \<Rightarrow> bool" where
  "le64 a b = (a \<noteq> NaN64 \<and> b \<noteq> NaN64 \<and> \<not> lt64 b a)"

definition gt64 :: "num64 \<Rightarrow> num64 \<Rightarrow> bool" where
  "gt64 a b = lt64 b a"

fun add64 :: "num64 \<Rightarrow> num64 \<Rightarrow> num64" where
  "add64 NaN64 b = NaN64"
| "add64 a NaN64 = NaN64"
| "add64 PosInf64 NegInf64 = NaN64"
| "add64 NegInf64 PosInf64 = NaN64"
| "add64 PosInf64 b = PosInf64"
| "add64 a PosInf64 = PosInf64"
| "add64 NegInf64 b = NegInf64"
| "add64 a NegInf64 = NegInf64"
| "add64 (Fin64 a) (Fin64 b) = to_double (a + b)"

definition Math_min64 :: "num64 \<Rightarrow> num64 \<Rightarrow> num64" where
  "Math_min64 a b = (if a = NaN64 \<or> b = NaN64 then NaN64 else if lt64 b a then b else a)"

definition or_zero64 :: "num64 \<Rightarrow> num64" where
  "or_zero64 x = (if x = NaN64 \<or> x = Fin64 0 then Fin64 0 else x)"

text \<open>
  The argument \<^verbatim>\<open>durationMs\<close>: \<^verbatim>\<open>undefined\<close> (also when it is missing), \<^verbatim>\<open>null\<close>, a
  boolean, a Number, or a Symbol. \<^verbatim>\<open>Number(v)\<close> throws a TypeError for a Symbol; a string or
  an object is represented by the Number its conversion yields (NaN for a string that is no
  numeric literal), or by \<open>Symbol\<close> when its conversion throws.
\<close>

datatype argument = Undefined | Null | Boolean bool | Number num64 | Symbol

datatype error = TypeError

fun ToNumber :: "argument \<Rightarrow> error + num64" where
  "ToNumber Undefined = Inr NaN64"
| "ToNumber Null = Inr (Fin64 0)"
| "ToNumber (Boolean b) = Inr (if b then Fin64 1 else Fin64 0)"
| "ToNumber (Number n) = Inr n"
| "ToNumber Symbol = Inl TypeError"

text \<open>
  \<^verbatim>\<open>Date.now()\<close> returns a time value: a whole number of milliseconds of magnitude at most
  8.64e15.
\<close>

definition time_value :: "int \<Rightarrow> bool" where
  "time_value t = (\<bar>t\<bar> \<le> 8640000000000000)"

subsection \<open>The store and its operations on doubles\<close>

record entry64 =
  expiresAt64 :: num64
  used64 :: bool

type_synonym store64 = "(int \<times> entry64) list"

fun Map_set64 :: "int \<Rightarrow> entry64 \<Rightarrow> store64 \<Rightarrow> store64" where
  "Map_set64 k v [] = [(k, v)]"
| "Map_set64 k v ((k', v') # m) = (if k' = k then (k, v) # m else (k', v') # Map_set64 k v m)"

fun Map_delete64 :: "int \<Rightarrow> store64 \<Rightarrow> store64" where
  "Map_delete64 k [] = []"
| "Map_delete64 k ((k', v') # m) =
     (if k' = k then Map_delete64 k m else (k', v') # Map_delete64 k m)"

fun Map_get64 :: "store64 \<Rightarrow> int \<Rightarrow> entry64 option" where
  "Map_get64 [] k = None"
| "Map_get64 ((k', v') # m) k = (if k' = k then Some v' else Map_get64 m k)"

definition createOtpStore64 :: store64 where
  "createOtpStore64 = []"

definition purge_step64 :: "int \<Rightarrow> int \<times> entry64 \<Rightarrow> store64 \<Rightarrow> store64" where
  "purge_step64 now kv m =
     (case kv of (key, val) \<Rightarrow>
        if le64 (expiresAt64 val) (Fin64 (of_int now)) \<or> used64 val then Map_delete64 key m else m)"

definition purge_visit64 :: "int \<Rightarrow> (int \<times> entry64) list \<Rightarrow> store64 \<Rightarrow> store64" where
  "purge_visit64 now visited m = fold (purge_step64 now) visited m"

definition purgeExpired64 :: "int \<Rightarrow> store64 \<Rightarrow> store64" where
  "purgeExpired64 now m = purge_visit64 now m m"

text \<open>\<^verbatim>\<open>Math.min(n || 0, MAX_MS)\<close> on the Number \<open>n\<close> that \<^verbatim>\<open>Number(durationMs)\<close> returned.\<close>

definition capped :: "num64 \<Rightarrow> num64" where
  "capped n = Math_min64 (or_zero64 n) (Fin64 (of_int MAX_MS))"

definition cappedDuration64 :: "argument \<Rightarrow> error + num64" where
  "cappedDuration64 durationMs =
     (case ToNumber durationMs of Inl err \<Rightarrow> Inl err | Inr n \<Rightarrow> Inr (capped n))"

text \<open>
  \<open>issue\<close> sweeps first; when the conversion of the duration then throws, the call ends with
  the error, has read the clock once, and leaves the swept store without writing an entry.
\<close>

definition issue64 ::
  "int \<Rightarrow> argument \<Rightarrow> int \<Rightarrow> int \<Rightarrow> store64 \<Rightarrow> (error + bool) \<times> store64" where
  "issue64 passcode durationMs t0 t1 m =
     (let m1 = purgeExpired64 t0 m in
      case cappedDuration64 durationMs of
        Inl err \<Rightarrow> (Inl err, m1)
      | Inr duration \<Rightarrow>
          let now = Fin64 (of_int t1);
              existedAndUnexpired =
                (case Map_get64 m1 passcode of
                   None \<Rightarrow> False
                 | Some existingEntry \<Rightarrow>
                     gt64 (expiresAt64 existingEntry) now \<and> \<not> used64 existingEntry)
          in (Inr existedAndUnexpired,
              Map_set64 passcode \<lparr>expiresAt64 = add64 now duration, used64 = False\<rparr> m1))"

definition useOnce64 :: "int \<Rightarrow> int \<Rightarrow> int \<Rightarrow> int \<Rightarrow> store64 \<Rightarrow> bool \<times> store64" where
  "useOnce64 passcode t0 t1 t2 m =
     (let m1 = purgeExpired64 t0 m in
      case Map_get64 m1 passcode of
        None \<Rightarrow> (False, m1)
      | Some e \<Rightarrow>
          if le64 (expiresAt64 e) (Fin64 (of_int t1)) \<or> used64 e
          then (False, Map_delete64 passcode m1)
          else (True, purgeExpired64 t2 (Map_set64 passcode (e\<lparr>used64 := True\<rparr>) m1)))"

text \<open>Live and stale entries, and the stores the program can be in, as before.\<close>

definition live64 :: "int \<Rightarrow> entry64 \<Rightarrow> bool" where
  "live64 now e = (gt64 (expiresAt64 e) (Fin64 (of_int now)) \<and> \<not> used64 e)"

definition stale64 :: "int \<Rightarrow> entry64 \<Rightarrow> bool" where
  "stale64 now e = (le64 (expiresAt64 e) (Fin64 (of_int now)) \<or> used64 e)"

definition store_ok64 :: "store64 \<Rightarrow> bool" where
  "store_ok64 m = (distinct (map fst m) \<and> (\<forall>kv \<in> set m. expiresAt64 (snd kv) \<noteq> NaN64))"

subsection \<open>Whole milliseconds as doubles\<close>

text \<open>
  The Numbers, arguments, entries and stores of the model on whole milliseconds, read as
  those of the model on doubles.
\<close>

fun to64 :: "jsnum \<Rightarrow> num64" where
  "to64 NaN = NaN64"
| "to64 NegInf = NegInf64"
| "to64 (Fin n) = Fin64 (of_int n)"
| "to64 PosInf = PosInf64"

fun argument_of :: "jsval \<Rightarrow> argument" where
  "argument_of JSUndefined = Undefined"
| "argument_of JSNull = Null"
| "argument_of (JSBoolean b) = Boolean b"
| "argument_of (JSNumber n) = Number (to64 n)"

definition entry_to64 :: "entry \<Rightarrow> entry64" where
  "entry_to64 e = \<lparr>expiresAt64 = to64 (expiresAt e), used64 = used e\<rparr>"

definition store_to64 :: "store \<Rightarrow> store64" where
  "store_to64 m = map (\<lambda>kv. (fst kv, entry_to64 (snd kv))) m"

text \<open>The sum \<^verbatim>\<open>now + cappedDuration\<close> of whole milliseconds is a double.\<close>

definition exact_expiry :: "int \<Rightarrow> jsval \<Rightarrow> bool" where
  "exact_expiry t d = (case cappedDuration d of Fin c \<Rightarrow> \<bar>t + c\<bar> \<le> 2 ^ 53 | _ \<Rightarrow> True)"

section \<open>Properties\<close>

subsection \<open>Operations of the Map\<close>

lemma Map_delete_filter: "Map_delete k m = filter (\<lambda>kv. fst kv \<noteq> k) m"
  by (induction m) auto

lemma Map_get_map_of: "Map_get m k = map_of m k"
  by (induction m) auto

lemma purge_step_filter:
  "purge_step now kv m = (if stale now (snd kv) then filter (\<lambda>p. fst p \<noteq> fst kv) m else m)"
  by (cases kv) (simp add: purge_step_def stale_def Map_delete_filter)

lemma purge_visit_filter:
  "purge_visit now vs m = filter (\<lambda>kv. \<forall>p \<in> set vs. stale now (snd p) \<longrightarrow> fst p \<noteq> fst kv) m"
proof (induction vs arbitrary: m)
  case Nil
  show ?case by (simp add: purge_visit_def)
next
  case (Cons v vs)
  have "purge_visit now (v # vs) m = purge_visit now vs (purge_step now v m)"
    by (simp add: purge_visit_def)
  also have "\<dots> = filter (\<lambda>kv. \<forall>p \<in> set vs. stale now (snd p) \<longrightarrow> fst p \<noteq> fst kv) (purge_step now v m)"
    by (rule Cons.IH)
  also have "\<dots> = filter (\<lambda>kv. \<forall>p \<in> set (v # vs). stale now (snd p) \<longrightarrow> fst p \<noteq> fst kv) m"
    by (auto simp: purge_step_filter intro: filter_cong)
  finally show ?case .
qed

lemma purge_visit_distinct:
  assumes "distinct (map fst m)" and "set vs = set m"
  shows "purge_visit now vs m = filter (\<lambda>kv. \<not> stale now (snd kv)) m"
proof -
  have "\<And>kv. kv \<in> set m \<Longrightarrow>
      (\<forall>p \<in> set vs. stale now (snd p) \<longrightarrow> fst p \<noteq> fst kv) = (\<not> stale now (snd kv))"
  proof -
    fix kv assume kv: "kv \<in> set m"
    have uniq: "\<And>p. p \<in> set m \<Longrightarrow> fst p = fst kv \<Longrightarrow> p = kv"
      using assms(1) kv by (auto simp: distinct_map dest: inj_onD)
    show "(\<forall>p \<in> set vs. stale now (snd p) \<longrightarrow> fst p \<noteq> fst kv) = (\<not> stale now (snd kv))"
      using kv uniq assms(2) by auto
  qed
  then show ?thesis
    unfolding purge_visit_filter by (intro filter_cong) auto
qed

lemma purgeExpired_keyfilter:
  "purgeExpired now m = filter (\<lambda>kv. \<forall>p \<in> set m. stale now (snd p) \<longrightarrow> fst p \<noteq> fst kv) m"
  by (simp add: purgeExpired_def purge_visit_filter)

lemma purgeExpired_distinct:
  "distinct (map fst m) \<Longrightarrow> purgeExpired now m = filter (\<lambda>kv. \<not> stale now (snd kv)) m"
  by (simp add: purgeExpired_def purge_visit_distinct)

lemma purgeExpired_compact_eq: "purgeExpired_compact now m = purgeExpired now m"
proof -
  have "(\<lambda>(k, v) m'. if js_le (expiresAt v) (Fin now) \<or> used v then Map_delete k m' else m')
        = purge_step now"
    by (auto simp: purge_step_def fun_eq_iff)
  then show ?thesis
    by (simp add: purgeExpired_compact_def purgeExpired_def purge_visit_def)
qed

lemma set_purgeExpired: "set (purgeExpired now m) \<subseteq> set m"
  by (simp add: purgeExpired_keyfilter)

lemma purged_not_stale: "kv \<in> set (purgeExpired now m) \<Longrightarrow> \<not> stale now (snd kv)"
  by (auto simp: purgeExpired_keyfilter)

lemma distinct_purgeExpired: "distinct (map fst m) \<Longrightarrow> distinct (map fst (purgeExpired now m))"
  by (simp add: purgeExpired_keyfilter distinct_map_filter)

lemma Map_get_keyfilter: "Map_get (filter (\<lambda>kv. P (fst kv)) m) k = (if P k then Map_get m k else None)"
  by (induction m) auto

lemma Map_get_purgeExpired:
  "Map_get (purgeExpired now m) k =
     (if \<exists>v. (k, v) \<in> set m \<and> stale now v then None else Map_get m k)"
proof -
  have "purgeExpired now m = filter (\<lambda>kv. (\<lambda>k'. \<not> (\<exists>v. (k', v) \<in> set m \<and> stale now v)) (fst kv)) m"
    unfolding purgeExpired_keyfilter by (intro filter_cong) auto
  then have "Map_get (purgeExpired now m) k =
      Map_get (filter (\<lambda>kv. (\<lambda>k'. \<not> (\<exists>v. (k', v) \<in> set m \<and> stale now v)) (fst kv)) m) k"
    by simp
  also have "\<dots> = (if \<not> (\<exists>v. (k, v) \<in> set m \<and> stale now v) then Map_get m k else None)"
    by (rule Map_get_keyfilter)
  finally show ?thesis by auto
qed

lemma Map_get_Some_iff: "distinct (map fst m) \<Longrightarrow> (Map_get m k = Some v) = ((k, v) \<in> set m)"
  by (simp add: Map_get_map_of)

lemma Map_get_None_iff: "(Map_get m k = None) = (k \<notin> fst ` set m)"
  by (simp add: Map_get_map_of map_of_eq_None_iff)

lemma Map_get_purgeExpired_distinct:
  "distinct (map fst m) \<Longrightarrow> Map_get (purgeExpired now m) k =
     (case Map_get m k of None \<Rightarrow> None | Some e \<Rightarrow> if stale now e then None else Some e)"
proof (cases "Map_get m k")
  case None
  then show ?thesis by (simp add: Map_get_purgeExpired)
next
  case (Some e)
  assume d: "distinct (map fst m)"
  then have "\<And>v. ((k, v) \<in> set m) = (v = e)"
    using Some by (auto simp: Map_get_Some_iff [symmetric])
  then show ?thesis using Some by (simp add: Map_get_purgeExpired)
qed

lemma Map_get_Map_set: "Map_get (Map_set k v m) k' = (if k' = k then Some v else Map_get m k')"
  by (induction m) auto

lemma Map_get_Map_delete: "Map_get (Map_delete k m) k' = (if k' = k then None else Map_get m k')"
  by (induction m) auto

lemma set_Map_set: "set (Map_set k v m) \<subseteq> insert (k, v) (set m)"
  by (induction m) (auto split: if_splits)

lemma in_set_Map_set: "(k, v) \<in> set (Map_set k v m)"
  by (induction m) auto

lemma map_fst_Map_set:
  "map fst (Map_set k v m) = (if k \<in> set (map fst m) then map fst m else map fst m @ [k])"
  by (induction m) (simp_all, force)

lemma keys_Map_set: "fst ` set (Map_set k v m) = insert k (fst ` set m)"
proof -
  have "set (map fst (Map_set k v m)) = insert k (set (map fst m))"
    unfolding map_fst_Map_set by auto
  then show ?thesis by simp
qed

lemma set_Map_delete: "set (Map_delete k m) \<subseteq> set m"
  by (auto simp: Map_delete_filter)

lemma distinct_Map_set: "distinct (map fst m) \<Longrightarrow> distinct (map fst (Map_set k v m))"
  by (simp add: map_fst_Map_set)

lemma distinct_Map_delete: "distinct (map fst m) \<Longrightarrow> distinct (map fst (Map_delete k m))"
  by (simp add: Map_delete_filter distinct_map_filter)

lemma js_gt_not_le: "a \<noteq> NaN \<Longrightarrow> js_gt a (Fin t) = (\<not> js_le a (Fin t))"
  by (simp add: js_gt_def js_le_def)


lemma live_not_stale: "live now e \<Longrightarrow> \<not> stale now e"
  by (auto simp: live_def stale_def js_gt_def js_le_def)

lemma not_stale_live: "expiresAt e \<noteq> NaN \<Longrightarrow> \<not> stale now e \<Longrightarrow> live now e"
  by (auto simp: live_def stale_def js_gt_def js_le_def)


lemma or_zero_cases: "or_zero x = Fin 0 \<or> (or_zero x = x \<and> x \<noteq> NaN)"
  by (auto simp: or_zero_def)

lemma cappedDuration_cases:
  "cappedDuration d = NegInf \<or> (\<exists>n. cappedDuration d = Fin n \<and> n \<le> MAX_MS)"
  by (cases "Number_js d") (auto simp: cappedDuration_def Math_min_def or_zero_def MAX_MS_def)

lemma expiry_cases:
  "js_add (Fin t) (cappedDuration d) = NegInf \<or>
   (\<exists>n. js_add (Fin t) (cappedDuration d) = Fin (t + n) \<and> cappedDuration d = Fin n \<and> n \<le> MAX_MS)"
  using cappedDuration_cases [of d] by auto

lemma expiry_not_NaN: "js_add (Fin t) (cappedDuration d) \<noteq> NaN"
  using expiry_cases [of t d] by auto

lemma store_ok_purgeExpired: "store_ok m \<Longrightarrow> store_ok (purgeExpired now m)"
  using set_purgeExpired [of now m] by (auto simp: store_ok_def distinct_purgeExpired)

lemma store_ok_Map_set: "store_ok m \<Longrightarrow> expiresAt v \<noteq> NaN \<Longrightarrow> store_ok (Map_set k v m)"
  using set_Map_set [of k v m] by (auto simp: store_ok_def distinct_Map_set)

lemma store_ok_Map_delete: "store_ok m \<Longrightarrow> store_ok (Map_delete k m)"
  using set_Map_delete [of k m] by (auto simp: store_ok_def distinct_Map_delete)

lemma store_ok_get: "store_ok m \<Longrightarrow> Map_get m k = Some e \<Longrightarrow> expiresAt e \<noteq> NaN"
  by (force simp: store_ok_def Map_get_Some_iff)

lemma useOnce_cases:
  "useOnce c t0 t1 t2 m =
     (case Map_get (purgeExpired t0 m) c of
        None \<Rightarrow> (False, purgeExpired t0 m)
      | Some e \<Rightarrow>
          if stale t1 e then (False, Map_delete c (purgeExpired t0 m))
          else (True, purgeExpired t2 (Map_set c (e\<lparr>used := True\<rparr>) (purgeExpired t0 m))))"
  by (simp add: useOnce_def Let_def stale_def split: option.splits)

lemma issue_cases:
  "issue c d t0 t1 m =
     ((case Map_get (purgeExpired t0 m) c of None \<Rightarrow> False | Some e \<Rightarrow> live t1 e),
      Map_set c \<lparr>expiresAt = js_add (Fin t1) (cappedDuration d), used = False\<rparr> (purgeExpired t0 m))"
  by (simp add: issue_def Let_def live_def split: option.splits)

lemma store_ok_issue: "store_ok m \<Longrightarrow> store_ok (snd (issue c d t0 t1 m))"
  by (simp add: issue_cases store_ok_Map_set store_ok_purgeExpired expiry_not_NaN)

lemma store_ok_useOnce: "store_ok m \<Longrightarrow> store_ok (snd (useOnce c t0 t1 t2 m))"
proof -
  assume ok: "store_ok m"
  then have ok1: "store_ok (purgeExpired t0 m)" by (rule store_ok_purgeExpired)
  show ?thesis
  proof (cases "Map_get (purgeExpired t0 m) c")
    case None
    then show ?thesis using ok1 by (simp add: useOnce_cases)
  next
    case (Some e)
    then have "expiresAt e \<noteq> NaN" using ok1 by (rule store_ok_get [rotated])
    then have "store_ok (Map_set c (e\<lparr>used := True\<rparr>) (purgeExpired t0 m))"
      using ok1 by (simp add: store_ok_Map_set)
    then show ?thesis
      using Some ok1 by (simp add: useOnce_cases store_ok_Map_delete store_ok_purgeExpired)
  qed
qed

lemma store_ok_createOtpStore: "store_ok createOtpStore"
  by (simp add: store_ok_def createOtpStore_def)

lemma store_ok_perform: "store_ok m \<Longrightarrow> store_ok (snd (perform x m))"
  by (cases x) (simp_all add: store_ok_issue store_ok_useOnce)

lemma store_ok_run: "store_ok m \<Longrightarrow> store_ok (snd (run cs m))"
proof (induction cs arbitrary: m)
  case Nil
  then show ?case by simp
next
  case (Cons x xs)
  have "store_ok (snd (run xs (snd (perform x m))))"
    using Cons.prems by (intro Cons.IH store_ok_perform)
  then show ?case by (simp add: split_beta)
qed

lemma store_ok_reachable: "store_ok (snd (run cs createOtpStore))"
  using store_ok_createOtpStore by (rule store_ok_run)

lemma purgeExpired_live_filter:
  assumes "store_ok m"
  shows "purgeExpired now m = filter (\<lambda>kv. live now (snd kv)) m"
proof -
  have "purgeExpired now m = filter (\<lambda>kv. \<not> stale now (snd kv)) m"
    using assms by (simp add: store_ok_def purgeExpired_distinct)
  also have "\<dots> = filter (\<lambda>kv. live now (snd kv)) m"
    using assms by (intro filter_cong) (auto simp: store_ok_def live_not_stale not_stale_live)
  finally show ?thesis .
qed

subsection \<open>The sweep as a filter\<close>

text \<open>
  Claim C7. At a fixed clock reading, on a store the program can be in, the sweep leaves
  exactly the entries whose
  \<^verbatim>\<open>expiresAt\<close> is strictly greater than \<^verbatim>\<open>now\<close> and whose \<^verbatim>\<open>used\<close> flag is false, in
  whatever order the entries are visited (\<open>visited\<close> is any enumeration of the entries
  of the store); the sweep of the program, which visits in insertion order, is one of them.
  Sweeping twice at the same reading gives the store that sweeping once gives.
\<close>

theorem sweep_is_filter_order_independent_idempotent:
  assumes "store_ok m" and "set visited = set m"
  shows "purge_visit now visited m =
           filter (\<lambda>kv. js_gt (expiresAt (snd kv)) (Fin now) \<and> used (snd kv) = False) m
         \<and> purgeExpired now m = purge_visit now visited m
         \<and> purgeExpired now (purgeExpired now m) = purgeExpired now m"
proof -
  have f: "filter (\<lambda>kv. js_gt (expiresAt (snd kv)) (Fin now) \<and> used (snd kv) = False) m
           = filter (\<lambda>kv. live now (snd kv)) m"
    by (simp add: live_def)
  have "purge_visit now visited m = filter (\<lambda>kv. \<not> stale now (snd kv)) m"
    using assms by (simp add: store_ok_def purge_visit_distinct)
  also have "\<dots> = purgeExpired now m"
    using assms by (simp add: store_ok_def purgeExpired_distinct)
  finally have v: "purge_visit now visited m = purgeExpired now m" .
  have idem: "purgeExpired now (purgeExpired now m) = purgeExpired now m"
    using assms(1) store_ok_purgeExpired [OF assms(1), of now]
    by (simp add: purgeExpired_live_filter)
  show ?thesis
    using v idem f purgeExpired_live_filter [OF assms(1), of now] by simp
qed

theorem sweep_is_filter_order_independent_idempotent_witness:
  "store_ok [(1, \<lparr>expiresAt = Fin 50, used = False\<rparr>), (2, \<lparr>expiresAt = Fin 10, used = False\<rparr>),
             (3, \<lparr>expiresAt = Fin 99, used = True\<rparr>), (4, \<lparr>expiresAt = Fin 11, used = False\<rparr>)]
   \<and> purge_visit 10
        [(4, \<lparr>expiresAt = Fin 11, used = False\<rparr>), (3, \<lparr>expiresAt = Fin 99, used = True\<rparr>),
         (1, \<lparr>expiresAt = Fin 50, used = False\<rparr>), (2, \<lparr>expiresAt = Fin 10, used = False\<rparr>)]
        [(1, \<lparr>expiresAt = Fin 50, used = False\<rparr>), (2, \<lparr>expiresAt = Fin 10, used = False\<rparr>),
         (3, \<lparr>expiresAt = Fin 99, used = True\<rparr>), (4, \<lparr>expiresAt = Fin 11, used = False\<rparr>)]
      = [(1, \<lparr>expiresAt = Fin 50, used = False\<rparr>), (4, \<lparr>expiresAt = Fin 11, used = False\<rparr>)]
   \<and> purgeExpired 10
        [(1, \<lparr>expiresAt = Fin 50, used = False\<rparr>), (2, \<lparr>expiresAt = Fin 10, used = False\<rparr>),
         (3, \<lparr>expiresAt = Fin 99, used = True\<rparr>), (4, \<lparr>expiresAt = Fin 11, used = False\<rparr>)]
      = [(1, \<lparr>expiresAt = Fin 50, used = False\<rparr>), (4, \<lparr>expiresAt = Fin 11, used = False\<rparr>)]"
proof -
  let ?m = "[(1::int, \<lparr>expiresAt = Fin 50, used = False\<rparr>), (2, \<lparr>expiresAt = Fin 10, used = False\<rparr>),
             (3, \<lparr>expiresAt = Fin 99, used = True\<rparr>), (4, \<lparr>expiresAt = Fin 11, used = False\<rparr>)]"
  let ?vs = "[(4::int, \<lparr>expiresAt = Fin 11, used = False\<rparr>), (3, \<lparr>expiresAt = Fin 99, used = True\<rparr>),
         (1, \<lparr>expiresAt = Fin 50, used = False\<rparr>), (2, \<lparr>expiresAt = Fin 10, used = False\<rparr>)]"
  have ok: "store_ok ?m" by (simp add: store_ok_def)
  have vs: "set ?vs = set ?m" by auto
  show ?thesis
    using ok sweep_is_filter_order_independent_idempotent [OF ok vs, of 10]
    by (simp add: js_gt_def)
qed

subsection \<open>Keys of the store\<close>

lemma keys_purgeExpired: "fst ` set (purgeExpired now m) \<subseteq> fst ` set m"
  using set_purgeExpired [of now m] by auto

lemma keys_Map_delete: "fst ` set (Map_delete k m) \<subseteq> fst ` set m"
  using set_Map_delete [of k m] by auto

lemma keys_issue: "fst ` set (snd (issue c d t0 t1 m)) \<subseteq> insert c (fst ` set m)"
  using keys_purgeExpired [of t0 m] by (auto simp: issue_cases keys_Map_set)

lemma purgeExpired_drops_stale_key:
  assumes "(k, v) \<in> set m" and "stale now v"
  shows "k \<notin> fst ` set (purgeExpired now m)"
  using assms by (force simp: purgeExpired_keyfilter)

lemma keys_useOnce: "fst ` set (snd (useOnce c t0 t1 t2 m)) \<subseteq> fst ` set m"
proof (cases "Map_get (purgeExpired t0 m) c")
  case None
  then show ?thesis using keys_purgeExpired [of t0 m] by (simp add: useOnce_cases)
next
  case (Some e)
  let ?m1 = "purgeExpired t0 m"
  have c_in: "c \<in> fst ` set ?m1"
    using Some Map_get_None_iff [of "purgeExpired t0 m" c] by simp
  have "fst ` set (purgeExpired t2 (Map_set c (e\<lparr>used := True\<rparr>) ?m1))
          \<subseteq> fst ` set (Map_set c (e\<lparr>used := True\<rparr>) ?m1)"
    by (rule keys_purgeExpired)
  also have "\<dots> = fst ` set ?m1"
    using c_in by (auto simp: keys_Map_set)
  finally have a: "fst ` set (purgeExpired t2 (Map_set c (e\<lparr>used := True\<rparr>) ?m1)) \<subseteq> fst ` set ?m1" .
  have b: "fst ` set (Map_delete c ?m1) \<subseteq> fst ` set ?m1"
    by (rule keys_Map_delete)
  have "fst ` set (snd (useOnce c t0 t1 t2 m)) \<subseteq> fst ` set ?m1"
  proof (cases "stale t1 e")
    case True
    then show ?thesis using Some b by (simp add: useOnce_cases)
  next
    case False
    then show ?thesis using Some a by (simp add: useOnce_cases)
  qed
  then show ?thesis
    using keys_purgeExpired [of t0 m] by (rule subset_trans)
qed

lemma useOnce_absent: "c \<notin> fst ` set m \<Longrightarrow> \<not> fst (useOnce c t0 t1 t2 m)"
proof -
  assume "c \<notin> fst ` set m"
  then have "c \<notin> fst ` set (purgeExpired t0 m)"
    using keys_purgeExpired [of t0 m] by auto
  then have "Map_get (purgeExpired t0 m) c = None"
    by (simp add: Map_get_None_iff)
  then show ?thesis by (simp add: useOnce_cases)
qed

lemma useOnce_True_removes:
  assumes "fst (useOnce c t0 t1 t2 m)"
  shows "c \<notin> fst ` set (snd (useOnce c t0 t1 t2 m))"
proof (cases "Map_get (purgeExpired t0 m) c")
  case None
  then show ?thesis using assms by (simp add: useOnce_cases)
next
  case (Some e)
  let ?m2 = "Map_set c (e\<lparr>used := True\<rparr>) (purgeExpired t0 m)"
  have ns: "\<not> stale t1 e" using assms Some by (auto simp: useOnce_cases split: if_splits)
  have "(c, e\<lparr>used := True\<rparr>) \<in> set ?m2" by (rule in_set_Map_set)
  moreover have "stale t2 (e\<lparr>used := True\<rparr>)" by (simp add: stale_def)
  ultimately have "c \<notin> fst ` set (purgeExpired t2 ?m2)"
    by (rule purgeExpired_drops_stale_key)
  then show ?thesis using Some ns by (simp add: useOnce_cases)
qed

lemma perform_keeps_absent:
  assumes "c \<notin> fst ` set m" and "\<not> issues_code c x"
  shows "c \<notin> fst ` set (snd (perform x m))"
proof (cases x)
  case (Issue c' d t0 t1)
  then show ?thesis using assms keys_issue [of c' d t0 t1 m] by auto
next
  case (UseOnce c' t0 t1 t2)
  then show ?thesis using assms keys_useOnce [of c' t0 t1 t2 m] by auto
qed

lemma redemptions_absent:
  assumes "c \<notin> fst ` set m" and "\<forall>x \<in> set cs. \<not> issues_code c x"
  shows "\<forall>r \<in> set (redemptions c cs m). r = False"
  using assms
proof (induction cs arbitrary: m)
  case Nil
  then show ?case by simp
next
  case (Cons x xs)
  obtain r m' where p: "perform x m = (r, m')" by (cases "perform x m")
  have ab: "c \<notin> fst ` set m'"
    using perform_keeps_absent [of c m x] Cons.prems p by simp
  have rest: "\<forall>r \<in> set (redemptions c xs m'). r = False"
    using Cons.IH [OF ab] Cons.prems by simp
  have "redeems_code c x \<Longrightarrow> r = False"
  proof -
    assume "redeems_code c x"
    then obtain t0 t1 t2 where "x = UseOnce c t0 t1 t2" by (cases x) auto
    then show "r = False" using useOnce_absent [of c m t0 t1 t2] Cons.prems(1) p by simp
  qed
  then show ?case using rest p by auto
qed

lemma redemptions_at_most_one:
  assumes "\<forall>x \<in> set cs. \<not> issues_code c x"
  shows "length (filter (\<lambda>r. r) (redemptions c cs m)) \<le> 1"
  using assms
proof (induction cs arbitrary: m)
  case Nil
  then show ?case by simp
next
  case (Cons x xs)
  obtain r m' where p: "perform x m = (r, m')" by (cases "perform x m")
  have ih: "length (filter (\<lambda>r. r) (redemptions c xs m')) \<le> 1"
    using Cons.IH Cons.prems by simp
  show ?case
  proof (cases "redeems_code c x \<and> r")
    case False
    then show ?thesis using ih p by auto
  next
    case True
    then obtain t0 t1 t2 where x: "x = UseOnce c t0 t1 t2" by (cases x) auto
    have "c \<notin> fst ` set m'"
      using useOnce_True_removes [of c t0 t1 t2 m] True p x by simp
    then have "\<forall>r \<in> set (redemptions c xs m'). r = False"
      using redemptions_absent [of c m' xs] Cons.prems by simp
    then have "filter (\<lambda>r. r) (redemptions c xs m') = []"
      by (simp add: filter_empty_conv)
    then show ?thesis using True p by simp
  qed
qed

subsection \<open>Redemption at most once\<close>

text \<open>
  Claim C1. In a run of calls none of which issues the code \<open>c\<close> (calls on other codes and
  further attempts on \<open>c\<close> may occur, with any clock readings, from any store), at most one
  attempt to redeem \<open>c\<close> returns true; and once \<open>useOnce c\<close> has returned true, every
  attempt on \<open>c\<close> in such a run from the store it left returns false.
\<close>

theorem useOnce_at_most_once:
  assumes "list_all (\<lambda>x. \<not> issues_code c x) cs"
  shows "length (filter (\<lambda>r. r) (redemptions c cs m)) \<le> 1
         \<and> (fst (useOnce c t0 t1 t2 m) \<longrightarrow>
              list_all (\<lambda>r. r = False) (redemptions c cs (snd (useOnce c t0 t1 t2 m))))"
proof -
  have a: "\<forall>x \<in> set cs. \<not> issues_code c x"
    using assms by (simp add: list_all_iff)
  show ?thesis
    using a redemptions_at_most_one [of cs c m]
      redemptions_absent [of c "snd (useOnce c t0 t1 t2 m)" cs]
      useOnce_True_removes [of c t0 t1 t2 m]
    unfolding list_all_iff by blast
qed

theorem useOnce_at_most_once_witness:
  "list_all (\<lambda>x. \<not> issues_code 7 x)
      [UseOnce 7 20 20 20, Issue 8 (JSNumber (Fin 500)) 30 30, UseOnce 7 40 41 42]
   \<and> redemptions 7 [UseOnce 7 20 20 20, Issue 8 (JSNumber (Fin 500)) 30 30, UseOnce 7 40 41 42]
         [(7, \<lparr>expiresAt = Fin 100, used = False\<rparr>)] = [True, False]
   \<and> fst (useOnce 7 10 10 10 [(7, \<lparr>expiresAt = Fin 100, used = False\<rparr>)])
   \<and> redemptions 7 [UseOnce 7 20 20 20, Issue 8 (JSNumber (Fin 500)) 30 30, UseOnce 7 40 41 42]
         (snd (useOnce 7 10 10 10 [(7, \<lparr>expiresAt = Fin 100, used = False\<rparr>)])) = [False, False]"
proof -
  let ?cs = "[UseOnce 7 20 20 20, Issue 8 (JSNumber (Fin 500)) 30 30, UseOnce 7 40 41 42]"
  have h: "list_all (\<lambda>x. \<not> issues_code 7 x) ?cs" by simp
  have u: "useOnce 7 10 10 10 [(7, \<lparr>expiresAt = Fin 100, used = False\<rparr>)] = (True, [])"
    by (simp add: useOnce_def purgeExpired_def purge_visit_def purge_step_def js_le_def)
  have r1: "redemptions 7 ?cs [(7, \<lparr>expiresAt = Fin 100, used = False\<rparr>)] = [True, False]"
    by (simp add: useOnce_def issue_def cappedDuration_def Math_min_def or_zero_def MAX_MS_def
        purgeExpired_def purge_visit_def purge_step_def js_le_def js_gt_def)
  have r2: "redemptions 7 ?cs [] = [False, False]"
    by (simp add: useOnce_def issue_def cappedDuration_def Math_min_def or_zero_def MAX_MS_def
        purgeExpired_def purge_visit_def purge_step_def js_le_def js_gt_def)
  show ?thesis
    using h useOnce_at_most_once [OF h, of "[(7, \<lparr>expiresAt = Fin 100, used = False\<rparr>)]" 10 10 10]
    by (simp only: u r1 r2 fst_conv snd_conv)
qed

subsection \<open>No consumed entry at rest\<close>

lemma Map_get_in_set: "Map_get m k = Some e \<Longrightarrow> (k, e) \<in> set m"
  by (induction m) (auto split: if_splits)

lemma no_used_purgeExpired: "no_used (purgeExpired now m)"
  using purged_not_stale [of _ now m] by (auto simp: no_used_def stale_def)

lemma no_used_subset: "no_used m \<Longrightarrow> set m' \<subseteq> set m \<Longrightarrow> no_used m'"
  by (auto simp: no_used_def)

lemma no_used_issue: "no_used (snd (issue c d t0 t1 m))"
  using no_used_purgeExpired [of t0 m]
    set_Map_set [of c "\<lparr>expiresAt = js_add (Fin t1) (cappedDuration d), used = False\<rparr>" "purgeExpired t0 m"]
  by (auto simp: issue_cases no_used_def)

lemma no_used_useOnce: "no_used (snd (useOnce c t0 t1 t2 m))"
proof (cases "Map_get (purgeExpired t0 m) c")
  case None
  then show ?thesis by (simp add: useOnce_cases no_used_purgeExpired)
next
  case (Some e)
  have "no_used (Map_delete c (purgeExpired t0 m))"
    using no_used_purgeExpired set_Map_delete by (rule no_used_subset)
  then show ?thesis using Some by (simp add: useOnce_cases no_used_purgeExpired)
qed

lemma no_used_perform: "no_used (snd (perform x m))"
  by (cases x) (simp_all add: no_used_issue no_used_useOnce)

lemma no_used_boundaries: "no_used m \<Longrightarrow> \<forall>s \<in> set (boundaries cs m). no_used s"
proof (induction cs arbitrary: m)
  case Nil
  then show ?case by simp
next
  case (Cons x xs)
  have "\<forall>s \<in> set (boundaries xs (snd (perform x m))). no_used s"
    using no_used_perform by (rule Cons.IH)
  then show ?case using Cons.prems by simp
qed

lemma found_after_sweep_not_stale:
  "Map_get (purgeExpired now m) c = Some e \<Longrightarrow> \<not> stale now e"
  using purged_not_stale [of "(c, e)" now m] by (auto dest: Map_get_in_set)

text \<open>
  Claim C10. No entry of the store has its \<^verbatim>\<open>used\<close> flag set at an operation boundary:
  not in any store at a boundary of a run that starts from the empty store of
  \<^verbatim>\<open>createOtpStore\<close>, and not in the store a call leaves, whatever store it started from and
  whatever its clock readings. Consequently the entry \<open>useOnce\<close> finds after its initial
  sweep is never consumed; with the clock reading of the sweep used again for \<^verbatim>\<open>now\<close>, the
  whole rejection test \<^verbatim>\<open>entry.expiresAt <= now || entry.used\<close> is false for it.
\<close>

theorem no_used_entry_at_rest:
  "list_all no_used (boundaries cs createOtpStore)
   \<and> no_used (snd (perform x m))
   \<and> (Map_get (purgeExpired now m) c = Some e \<longrightarrow>
        \<not> used e \<and> \<not> (js_le (expiresAt e) (Fin now) \<or> used e))"
proof -
  have "no_used createOtpStore" by (simp add: no_used_def createOtpStore_def)
  then have "list_all no_used (boundaries cs createOtpStore)"
    unfolding list_all_iff by (rule no_used_boundaries)
  moreover have "Map_get (purgeExpired now m) c = Some e \<longrightarrow>
        \<not> used e \<and> \<not> (js_le (expiresAt e) (Fin now) \<or> used e)"
    using found_after_sweep_not_stale [of now m c e] by (auto simp: stale_def)
  ultimately show ?thesis using no_used_perform [of x m] by blast
qed

theorem no_used_entry_at_rest_witness:
  "boundaries [Issue 7 (JSNumber (Fin 500)) 10 10, UseOnce 7 20 20 20] createOtpStore
     = [[], [(7, \<lparr>expiresAt = Fin 510, used = False\<rparr>)], []]
   \<and> list_all no_used
        (boundaries [Issue 7 (JSNumber (Fin 500)) 10 10, UseOnce 7 20 20 20] createOtpStore)
   \<and> snd (perform (UseOnce 7 20 20 20)
        [(7, \<lparr>expiresAt = Fin 510, used = False\<rparr>), (8, \<lparr>expiresAt = Fin 900, used = True\<rparr>)]) = []
   \<and> no_used (snd (perform (UseOnce 7 20 20 20)
        [(7, \<lparr>expiresAt = Fin 510, used = False\<rparr>), (8, \<lparr>expiresAt = Fin 900, used = True\<rparr>)]))
   \<and> Map_get (purgeExpired 20
        [(7, \<lparr>expiresAt = Fin 510, used = False\<rparr>), (8, \<lparr>expiresAt = Fin 900, used = True\<rparr>)]) 7
       = Some \<lparr>expiresAt = Fin 510, used = False\<rparr>
   \<and> \<not> used \<lparr>expiresAt = Fin 510, used = False\<rparr>
   \<and> \<not> (js_le (expiresAt \<lparr>expiresAt = Fin 510, used = False\<rparr>) (Fin 20)
          \<or> used \<lparr>expiresAt = Fin 510, used = False\<rparr>)"
proof -
  let ?m = "[(7, \<lparr>expiresAt = Fin 510, used = False\<rparr>), (8, \<lparr>expiresAt = Fin 900, used = True\<rparr>)]"
  have b: "boundaries [Issue 7 (JSNumber (Fin 500)) 10 10, UseOnce 7 20 20 20] createOtpStore
     = [[], [(7, \<lparr>expiresAt = Fin 510, used = False\<rparr>)], []]"
    by (simp add: createOtpStore_def useOnce_def issue_def cappedDuration_def Math_min_def
        or_zero_def MAX_MS_def purgeExpired_def purge_visit_def purge_step_def js_le_def js_gt_def)
  have p: "snd (perform (UseOnce 7 20 20 20) ?m) = []"
    by (simp add: useOnce_def purgeExpired_def purge_visit_def purge_step_def js_le_def)
  have g: "Map_get (purgeExpired 20 ?m) 7 = Some \<lparr>expiresAt = Fin 510, used = False\<rparr>"
    by (simp add: purgeExpired_def purge_visit_def purge_step_def js_le_def)
  show ?thesis
    using b p g
      no_used_entry_at_rest [of "[Issue 7 (JSNumber (Fin 500)) 10 10, UseOnce 7 20 20 20]"
        "UseOnce 7 20 20 20" ?m 20 7 "\<lparr>expiresAt = Fin 510, used = False\<rparr>"]
    by (simp del: boundaries.simps perform.simps)
qed

subsection \<open>The two implementations\<close>

lemma useOnce_compact_eq: "useOnce_compact c t0 t1 t2 m = useOnce c t0 t1 t2 m"
  by (simp add: useOnce_compact_def useOnce_def purgeExpired_compact_eq Let_def split: option.splits)

lemma issue_compact_eq:
  assumes "store_ok m"
  shows "issue_compact c d t t m = issue c d t t m"
proof -
  let ?m1 = "purgeExpired t m"
  have "Map_has ?m1 c = (case Map_get ?m1 c of None \<Rightarrow> False | Some e \<Rightarrow> live t e)"
  proof (cases "Map_get ?m1 c")
    case None
    then show ?thesis using Map_get_None_iff [of ?m1 c] by (simp add: Map_has_def)
  next
    case (Some e)
    have "store_ok ?m1" using assms by (rule store_ok_purgeExpired)
    then have "expiresAt e \<noteq> NaN" using Some by (rule store_ok_get)
    moreover have "\<not> stale t e" using Some by (rule found_after_sweep_not_stale)
    ultimately have "live t e" by (rule not_stale_live)
    moreover have "Map_has ?m1 c"
      using Some Map_get_None_iff [of ?m1 c] by (simp add: Map_has_def)
    ultimately show ?thesis using Some by simp
  qed
  then show ?thesis
    by (simp add: issue_compact_def issue_cases Let_def purgeExpired_compact_eq cappedDuration_def)
qed

lemma perform_compact_eq:
  "store_ok m \<Longrightarrow> single_clock x \<Longrightarrow> perform_compact x m = perform x m"
  by (cases x) (simp_all add: issue_compact_eq useOnce_compact_eq)

text \<open>
  The restriction to one clock reading per call matters: when the clock advances between
  the sweep of \<open>issue\<close> and its reading for \<^verbatim>\<open>now\<close>, an entry that expires in between is
  still in the store, and only the documented implementation notices that it has expired.
\<close>

lemma issue_versions_differ_when_clock_advances:
  "fst (issue 7 (JSNumber (Fin 500)) 10 20 [(7, \<lparr>expiresAt = Fin 15, used = False\<rparr>)]) = False
   \<and> fst (issue_compact 7 (JSNumber (Fin 500)) 10 20 [(7, \<lparr>expiresAt = Fin 15, used = False\<rparr>)]) = True"
  by (simp add: issue_def issue_compact_def purgeExpired_compact_def purgeExpired_def purge_visit_def
      purge_step_def js_le_def js_gt_def Map_has_def)

text \<open>
  Claim C9. When every call reads one instant from the clock, the compact implementation
  (whose \<open>issue\<close> tests only \<^verbatim>\<open>store.has(passcode)\<close> after the sweep) and the documented
  one (whose \<open>issue\<close> tests \<^verbatim>\<open>expiresAt > now && !used\<close> on the prior entry) return the same
  booleans and leave the same store, for every sequence of calls from the same store; the
  store is any one the program can be in, in particular the empty store both start from.
\<close>

theorem compact_equals_documented:
  assumes "store_ok m" and "list_all single_clock cs"
  shows "run_compact cs m = run cs m"
  using assms
proof (induction cs arbitrary: m)
  case Nil
  show ?case by simp
next
  case (Cons x xs)
  have p: "perform_compact x m = perform x m"
    using Cons.prems by (simp add: perform_compact_eq)
  have "store_ok (snd (perform x m))"
    using Cons.prems(1) by (rule store_ok_perform)
  then have "run_compact xs (snd (perform x m)) = run xs (snd (perform x m))"
    using Cons.IH Cons.prems(2) by simp
  then show ?case using p by (simp add: split_beta)
qed

theorem compact_equals_documented_witness:
  "store_ok createOtpStore
   \<and> list_all single_clock
        [Issue 123456 (JSNumber (Fin 600000)) 0 0, Issue 123456 (JSNumber (Fin 30000)) 5 5,
         UseOnce 123456 9 9 9, UseOnce 123456 12 12 12]
   \<and> run [Issue 123456 (JSNumber (Fin 600000)) 0 0, Issue 123456 (JSNumber (Fin 30000)) 5 5,
           UseOnce 123456 9 9 9, UseOnce 123456 12 12 12] createOtpStore
       = ([False, True, True, False], [])
   \<and> run_compact [Issue 123456 (JSNumber (Fin 600000)) 0 0, Issue 123456 (JSNumber (Fin 30000)) 5 5,
           UseOnce 123456 9 9 9, UseOnce 123456 12 12 12] createOtpStore
       = ([False, True, True, False], [])"
proof -
  let ?cs = "[Issue 123456 (JSNumber (Fin 600000)) 0 0, Issue 123456 (JSNumber (Fin 30000)) 5 5,
              UseOnce 123456 9 9 9, UseOnce 123456 12 12 12]"
  have ok: "store_ok createOtpStore" by (rule store_ok_createOtpStore)
  have sc: "list_all single_clock ?cs" by simp
  have r: "run ?cs createOtpStore = ([False, True, True, False], [])"
    by (simp add: createOtpStore_def useOnce_def issue_def cappedDuration_def Math_min_def
        or_zero_def MAX_MS_def purgeExpired_def purge_visit_def purge_step_def js_le_def js_gt_def)
  show ?thesis
    using ok sc r compact_equals_documented [OF ok sc] by simp
qed

subsection \<open>Results of the two operations\<close>

lemma stale_later: "stale t0 e \<Longrightarrow> t0 \<le> t1 \<Longrightarrow> expiresAt e \<noteq> NaN \<Longrightarrow> stale t1 e"
  by (cases "expiresAt e") (auto simp: stale_def js_le_def)

lemma useOnce_result:
  assumes "distinct (map fst m)"
  shows "fst (useOnce c t0 t1 t2 m) = (\<exists>e. Map_get m c = Some e \<and> \<not> stale t0 e \<and> \<not> stale t1 e)"
  using assms by (auto simp: useOnce_cases Map_get_purgeExpired_distinct split: option.splits)


text \<open>
  Claim C3. On a store the program can be in, and with the clock not running backwards
  between the sweep and the reading for \<^verbatim>\<open>now\<close>, \<open>useOnce c\<close> returns true exactly when the store holds an entry for \<open>c\<close> that
  is live at \<^verbatim>\<open>now\<close> (\<^verbatim>\<open>expiresAt > now\<close>, not used). The result is the one boolean
  false for a code that has no entry, for an expired entry and for a consumed entry, and
  on the empty store.
\<close>

theorem useOnce_true_iff_live:
  assumes "store_ok m" and "t0 \<le> t1"
  shows "fst (useOnce c t0 t1 t2 m) = (\<exists>e. Map_get m c = Some e \<and> live t1 e)
         \<and> (Map_get m c = None \<longrightarrow> fst (useOnce c t0 t1 t2 m) = False)
         \<and> (Map_get m c = Some e \<and> js_le (expiresAt e) (Fin t1) \<longrightarrow>
              fst (useOnce c t0 t1 t2 m) = False)
         \<and> (Map_get m c = Some e \<and> used e \<longrightarrow> fst (useOnce c t0 t1 t2 m) = False)
         \<and> fst (useOnce c t0 t1 t2 createOtpStore) = False"
proof -
  have d: "distinct (map fst m)" using assms(1) by (simp add: store_ok_def)
  have iff: "fst (useOnce c t0 t1 t2 m) = (\<exists>e. Map_get m c = Some e \<and> live t1 e)"
  proof -
    have "\<And>e'. Map_get m c = Some e' \<Longrightarrow> (\<not> stale t0 e' \<and> \<not> stale t1 e') = live t1 e'"
    proof -
      fix e' assume g: "Map_get m c = Some e'"
      have n: "expiresAt e' \<noteq> NaN" using assms(1) g by (rule store_ok_get)
      show "(\<not> stale t0 e' \<and> \<not> stale t1 e') = live t1 e'"
        using n assms(2) live_not_stale [of t1 e'] not_stale_live [of e' t1]
          stale_later [of t0 e' t1] by blast
    qed
    then show ?thesis unfolding useOnce_result [OF d] by auto
  qed
  have "live t1 e \<Longrightarrow> \<not> js_le (expiresAt e) (Fin t1) \<and> \<not> used e"
    using live_not_stale [of t1 e] by (simp add: stale_def)
  then show ?thesis
    using iff by (auto simp: createOtpStore_def useOnce_cases purgeExpired_keyfilter)
qed

theorem useOnce_true_iff_live_witness:
  "store_ok [(7, \<lparr>expiresAt = Fin 100, used = False\<rparr>), (8, \<lparr>expiresAt = Fin 30, used = False\<rparr>)]
   \<and> (10::int) \<le> 12
   \<and> fst (useOnce 7 10 12 13 [(7, \<lparr>expiresAt = Fin 100, used = False\<rparr>), (8, \<lparr>expiresAt = Fin 30, used = False\<rparr>)])
   \<and> Map_get [(7, \<lparr>expiresAt = Fin 100, used = False\<rparr>), (8, \<lparr>expiresAt = Fin 30, used = False\<rparr>)] 7
       = Some \<lparr>expiresAt = Fin 100, used = False\<rparr>
   \<and> live 12 \<lparr>expiresAt = Fin 100, used = False\<rparr>
   \<and> Map_get [(7, \<lparr>expiresAt = Fin 100, used = False\<rparr>), (8, \<lparr>expiresAt = Fin 30, used = False\<rparr>)] 9 = None
   \<and> fst (useOnce 9 10 12 13 [(7, \<lparr>expiresAt = Fin 100, used = False\<rparr>), (8, \<lparr>expiresAt = Fin 30, used = False\<rparr>)]) = False
   \<and> js_le (expiresAt \<lparr>expiresAt = Fin 30, used = False\<rparr>) (Fin 40)
   \<and> fst (useOnce 8 40 40 40 [(7, \<lparr>expiresAt = Fin 100, used = False\<rparr>), (8, \<lparr>expiresAt = Fin 30, used = False\<rparr>)]) = False
   \<and> store_ok [(7, \<lparr>expiresAt = Fin 100, used = True\<rparr>)]
   \<and> fst (useOnce 7 10 12 13 [(7, \<lparr>expiresAt = Fin 100, used = True\<rparr>)]) = False"
proof -
  let ?m = "[(7, \<lparr>expiresAt = Fin 100, used = False\<rparr>), (8, \<lparr>expiresAt = Fin 30, used = False\<rparr>)]"
  let ?n = "[(7, \<lparr>expiresAt = Fin 100, used = True\<rparr>)]"
  have ok: "store_ok ?m" by (simp add: store_ok_def)
  have ok': "store_ok ?n" by (simp add: store_ok_def)
  have le: "(10::int) \<le> 12" by simp
  have le': "(40::int) \<le> 40" by simp
  have l: "live 12 \<lparr>expiresAt = Fin 100, used = False\<rparr>" by (simp add: live_def js_gt_def)
  have x: "js_le (expiresAt \<lparr>expiresAt = Fin 30, used = False\<rparr>) (Fin 40)" by (simp add: js_le_def)
  show ?thesis
    using ok ok' l x
      useOnce_true_iff_live [OF ok le, of 7 13 "\<lparr>expiresAt = Fin 100, used = False\<rparr>"]
      useOnce_true_iff_live [OF ok le, of 9 13 "\<lparr>expiresAt = Fin 100, used = False\<rparr>"]
      useOnce_true_iff_live [OF ok le', of 8 40 "\<lparr>expiresAt = Fin 30, used = False\<rparr>"]
      useOnce_true_iff_live [OF ok' le, of 7 13 "\<lparr>expiresAt = Fin 100, used = True\<rparr>"]
    by (simp add: live_def js_gt_def js_le_def)
qed

subsection \<open>The duration cap\<close>

lemma Map_get_issue_same:
  "Map_get (snd (issue c d t0 t1 m)) c
     = Some \<lparr>expiresAt = js_add (Fin t1) (cappedDuration d), used = False\<rparr>"
  by (simp add: issue_cases Map_get_Map_set)

lemma expiry_le_cap: "js_le (js_add (Fin t) (cappedDuration d)) (Fin (t + MAX_MS))"
  using expiry_cases [of t d] by (auto simp: js_le_def)

lemma cappedDuration_Fin: "cappedDuration (JSNumber (Fin n)) = Fin (min n MAX_MS)"
  by (auto simp: cappedDuration_def Math_min_def or_zero_def MAX_MS_def)

lemma useOnce_after_issue:
  "fst (useOnce c u0 u1 u2 (snd (issue c d t0 t1 m)))
     = (\<not> stale u0 \<lparr>expiresAt = js_add (Fin t1) (cappedDuration d), used = False\<rparr>
        \<and> \<not> stale u1 \<lparr>expiresAt = js_add (Fin t1) (cappedDuration d), used = False\<rparr>
        \<and> (\<forall>v. (c, v) \<in> set (snd (issue c d t0 t1 m)) \<longrightarrow> \<not> stale u0 v))"
proof -
  let ?new = "\<lparr>expiresAt = js_add (Fin t1) (cappedDuration d), used = False\<rparr>"
  let ?m2 = "snd (issue c d t0 t1 m)"
  have g: "Map_get ?m2 c = Some ?new" by (rule Map_get_issue_same)
  then have i: "(c, ?new) \<in> set ?m2" by (rule Map_get_in_set)
  show ?thesis
  proof (cases "\<exists>v. (c, v) \<in> set ?m2 \<and> stale u0 v")
    case True
    then have "Map_get (purgeExpired u0 ?m2) c = None" by (simp add: Map_get_purgeExpired)
    then show ?thesis using True by (auto simp: useOnce_cases)
  next
    case False
    then have "Map_get (purgeExpired u0 ?m2) c = Some ?new"
      using g by (simp add: Map_get_purgeExpired)
    then show ?thesis using False i by (auto simp: useOnce_cases)
  qed
qed

text \<open>
  Claim C6. \<^verbatim>\<open>MAX_MS\<close> is 300000 ms, and the entry \<open>issue c d\<close> stores has
  \<^verbatim>\<open>expiresAt <= now + 300000\<close>. So after \<open>issue\<close> with a requested duration of ten minutes,
  a \<open>useOnce c\<close> whose \<^verbatim>\<open>now\<close> is 300000 ms or more after the \<^verbatim>\<open>now\<close> of the issue
  returns false (also when less than ten minutes have passed). The result of \<open>issue\<close> is
  the same for every requested duration: the cap does not show in it.
\<close>

theorem five_minute_cap:
  "MAX_MS = 300000
   \<and> Map_get (snd (issue c d t0 t1 m)) c
       = Some \<lparr>expiresAt = js_add (Fin t1) (cappedDuration d), used = False\<rparr>
   \<and> js_le (js_add (Fin t1) (cappedDuration d)) (Fin (t1 + 300000))
   \<and> (t1 + 300000 \<le> u1 \<longrightarrow>
        fst (useOnce c u0 u1 u2 (snd (issue c (JSNumber (Fin (10 * 60 * 1000))) t0 t1 m))) = False)
   \<and> fst (issue c d t0 t1 m) = fst (issue c d' t0 t1 m)"
proof -
  have cap: "MAX_MS = 300000" by (simp add: MAX_MS_def)
  have "cappedDuration (JSNumber (Fin (10 * 60 * 1000))) = Fin 300000"
    by (simp add: cappedDuration_Fin cap)
  then have "t1 + 300000 \<le> u1 \<Longrightarrow>
      stale u1 \<lparr>expiresAt = js_add (Fin t1) (cappedDuration (JSNumber (Fin (10 * 60 * 1000)))), used = False\<rparr>"
    by (simp add: stale_def js_le_def)
  then have late: "t1 + 300000 \<le> u1 \<longrightarrow>
        fst (useOnce c u0 u1 u2 (snd (issue c (JSNumber (Fin (10 * 60 * 1000))) t0 t1 m))) = False"
    unfolding useOnce_after_issue by blast
  have same: "fst (issue c d t0 t1 m) = fst (issue c d' t0 t1 m)"
    by (simp add: issue_cases)
  show ?thesis
    using cap late same Map_get_issue_same [of c d t0 t1 m] expiry_le_cap [of t1 d]
    by simp
qed

theorem five_minute_cap_witness:
  "snd (issue 999888 (JSNumber (Fin 600000)) 1000 1000 createOtpStore)
     = [(999888, \<lparr>expiresAt = Fin 301000, used = False\<rparr>)]
   \<and> js_le (Fin 301000) (Fin (1000 + 300000))
   \<and> (1000::int) + 300000 \<le> 401000
   \<and> (401000::int) < 1000 + 600000
   \<and> fst (useOnce 999888 401000 401000 401000
          (snd (issue 999888 (JSNumber (Fin (10 * 60 * 1000))) 1000 1000 createOtpStore))) = False
   \<and> fst (issue 999888 (JSNumber (Fin 600000)) 1000 1000 createOtpStore)
       = fst (issue 999888 (JSNumber (Fin 30000)) 1000 1000 createOtpStore)"
proof -
  have s: "snd (issue 999888 (JSNumber (Fin 600000)) 1000 1000 createOtpStore)
     = [(999888, \<lparr>expiresAt = Fin 301000, used = False\<rparr>)]"
    by (simp add: createOtpStore_def issue_def cappedDuration_def Math_min_def or_zero_def
        MAX_MS_def purgeExpired_def purge_visit_def)
  have le: "(1000::int) + 300000 \<le> 401000" by simp
  have j: "js_le (Fin 301000) (Fin (1000 + 300000))" by (simp add: js_le_def)
  note t = five_minute_cap [of 999888 "JSNumber (Fin 600000)" 1000 1000 createOtpStore
      401000 401000 401000 "JSNumber (Fin 30000)"]
  have r: "fst (useOnce 999888 401000 401000 401000
          (snd (issue 999888 (JSNumber (Fin (10 * 60 * 1000))) 1000 1000 createOtpStore))) = False"
    using t le by blast
  have e: "fst (issue 999888 (JSNumber (Fin 600000)) 1000 1000 createOtpStore)
       = fst (issue 999888 (JSNumber (Fin 30000)) 1000 1000 createOtpStore)"
    using t by blast
  show ?thesis
    by (intro conjI) (rule s, rule j, rule le, simp, rule r, rule e)
qed

subsection \<open>Entries of other codes\<close>

lemma Map_get_issue_other:
  assumes "distinct (map fst m)" and "k \<noteq> c"
  shows "Map_get (snd (issue c d t0 t1 m)) k
           = (case Map_get m k of None \<Rightarrow> None | Some e \<Rightarrow> if stale t0 e then None else Some e)"
  using assms by (simp add: issue_cases Map_get_Map_set Map_get_purgeExpired_distinct)

lemma Map_get_useOnce_other:
  assumes "distinct (map fst m)" and "k \<noteq> c"
  shows "Map_get (snd (useOnce c t0 t1 t2 m)) k
           = (case Map_get m k of
                None \<Rightarrow> None
              | Some e \<Rightarrow>
                  if stale t0 e \<or> (fst (useOnce c t0 t1 t2 m) \<and> stale t2 e) then None else Some e)"
proof -
  let ?m1 = "purgeExpired t0 m"
  have d1: "distinct (map fst ?m1)" using assms(1) by (rule distinct_purgeExpired)
  have g1: "Map_get ?m1 k
      = (case Map_get m k of None \<Rightarrow> None | Some e \<Rightarrow> if stale t0 e then None else Some e)"
    using assms(1) by (rule Map_get_purgeExpired_distinct)
  show ?thesis
  proof (cases "Map_get ?m1 c")
    case None
    then show ?thesis using g1 by (simp add: useOnce_cases split: option.splits)
  next
    case (Some e)
    show ?thesis
    proof (cases "stale t1 e")
      case True
      then show ?thesis
        using Some g1 assms(2) by (simp add: useOnce_cases Map_get_Map_delete split: option.splits)
    next
      case False
      let ?m2 = "Map_set c (e\<lparr>used := True\<rparr>) ?m1"
      have d2: "distinct (map fst ?m2)" using d1 by (rule distinct_Map_set)
      have "Map_get (purgeExpired t2 ?m2) k
          = (case Map_get ?m2 k of None \<Rightarrow> None | Some e \<Rightarrow> if stale t2 e then None else Some e)"
        using d2 by (rule Map_get_purgeExpired_distinct)
      then show ?thesis
        using Some False g1 assms(2)
        by (simp add: useOnce_cases Map_get_Map_set split: option.splits)
    qed
  qed
qed

text \<open>
  Claim C8. Let \<open>k\<close> be a code other than \<open>c\<close> with entry \<open>e\<close> in the store. If \<open>e\<close> is live
  at the clock readings of the sweeps of a call \<open>issue c d\<close> or \<open>useOnce c\<close> (with one
  reading per call: live at the time of the call), then after the call \<open>k\<close> still has the
  entry \<open>e\<close>, with the same \<^verbatim>\<open>expiresAt\<close> and \<^verbatim>\<open>used\<close>. If \<open>k\<close> does not have the entry
  \<open>e\<close> after the call, then \<open>k\<close> has no entry and \<open>e\<close> was expired or consumed at the
  reading of a sweep: the calls remove no other entries of other codes, and change none.
\<close>

theorem other_entries_unchanged:
  assumes "distinct (map fst m)" and "k \<noteq> c" and "Map_get m k = Some e"
  shows "(live t0 e \<longrightarrow> Map_get (snd (issue c d t0 t1 m)) k = Some e)
         \<and> (live t0 e \<and> live t2 e \<longrightarrow> Map_get (snd (useOnce c t0 t1 t2 m)) k = Some e)
         \<and> (Map_get (snd (issue c d t0 t1 m)) k \<noteq> Some e \<longrightarrow>
              Map_get (snd (issue c d t0 t1 m)) k = None \<and> stale t0 e)
         \<and> (Map_get (snd (useOnce c t0 t1 t2 m)) k \<noteq> Some e \<longrightarrow>
              Map_get (snd (useOnce c t0 t1 t2 m)) k = None \<and> (stale t0 e \<or> stale t2 e))"
  using assms(3) live_not_stale [of t0 e] live_not_stale [of t2 e]
  unfolding Map_get_issue_other [OF assms(1,2)] Map_get_useOnce_other [OF assms(1,2)]
  by auto

theorem other_entries_unchanged_witness:
  "distinct (map fst [(7::int, \<lparr>expiresAt = Fin 100, used = False\<rparr>),
                      (8, \<lparr>expiresAt = Fin 90, used = False\<rparr>),
                      (9, \<lparr>expiresAt = Fin 15, used = False\<rparr>)])
   \<and> (8::int) \<noteq> 7
   \<and> Map_get [(7, \<lparr>expiresAt = Fin 100, used = False\<rparr>), (8, \<lparr>expiresAt = Fin 90, used = False\<rparr>),
               (9, \<lparr>expiresAt = Fin 15, used = False\<rparr>)] 8 = Some \<lparr>expiresAt = Fin 90, used = False\<rparr>
   \<and> live 20 \<lparr>expiresAt = Fin 90, used = False\<rparr>
   \<and> Map_get (snd (issue 7 (JSNumber (Fin 500)) 20 20
               [(7, \<lparr>expiresAt = Fin 100, used = False\<rparr>), (8, \<lparr>expiresAt = Fin 90, used = False\<rparr>),
                (9, \<lparr>expiresAt = Fin 15, used = False\<rparr>)])) 8 = Some \<lparr>expiresAt = Fin 90, used = False\<rparr>
   \<and> Map_get (snd (useOnce 7 20 20 20
               [(7, \<lparr>expiresAt = Fin 100, used = False\<rparr>), (8, \<lparr>expiresAt = Fin 90, used = False\<rparr>),
                (9, \<lparr>expiresAt = Fin 15, used = False\<rparr>)])) 8 = Some \<lparr>expiresAt = Fin 90, used = False\<rparr>
   \<and> Map_get (snd (useOnce 7 20 20 20
               [(7, \<lparr>expiresAt = Fin 100, used = False\<rparr>), (8, \<lparr>expiresAt = Fin 90, used = False\<rparr>),
                (9, \<lparr>expiresAt = Fin 15, used = False\<rparr>)])) 9 = None
   \<and> stale 20 \<lparr>expiresAt = Fin 15, used = False\<rparr>"
proof -
  let ?m = "[(7::int, \<lparr>expiresAt = Fin 100, used = False\<rparr>), (8, \<lparr>expiresAt = Fin 90, used = False\<rparr>),
             (9, \<lparr>expiresAt = Fin 15, used = False\<rparr>)]"
  have d: "distinct (map fst ?m)" by simp
  have n8: "(8::int) \<noteq> 7" by simp
  have g8: "Map_get ?m 8 = Some \<lparr>expiresAt = Fin 90, used = False\<rparr>" by simp
  have l: "live 20 \<lparr>expiresAt = Fin 90, used = False\<rparr>" by (simp add: live_def js_gt_def)
  have st: "stale 20 \<lparr>expiresAt = Fin 15, used = False\<rparr>" by (simp add: stale_def js_le_def)
  note t8 = other_entries_unchanged [OF d n8 g8, of 20 "JSNumber (Fin 500)" 20 20]
  have a: "Map_get (snd (issue 7 (JSNumber (Fin 500)) 20 20 ?m)) 8 = Some \<lparr>expiresAt = Fin 90, used = False\<rparr>"
    using t8 l by blast
  have b: "Map_get (snd (useOnce 7 20 20 20 ?m)) 8 = Some \<lparr>expiresAt = Fin 90, used = False\<rparr>"
    using t8 l by blast
  have c0: "Map_get (snd (useOnce 7 20 20 20 ?m)) 9 = None"
    by (simp add: useOnce_def purgeExpired_def purge_visit_def purge_step_def js_le_def)
  show ?thesis
    by (intro conjI) (rule d, rule n8, rule g8, rule l, rule a, rule b, rule c0, rule st)
qed

subsection \<open>The result of issue\<close>





section \<open>Properties on doubles\<close>

subsection \<open>Rounding to a double\<close>

lemma rhe_ge: "of_int k \<le> r \<Longrightarrow> k \<le> round_half_even r"
proof -
  assume "of_int k \<le> r"
  then have "k \<le> \<lfloor>r\<rfloor>" by (simp add: le_floor_iff)
  then show ?thesis by (auto simp: round_half_even_def Let_def)
qed

lemma rhe_le: "r \<le> of_int k \<Longrightarrow> round_half_even r \<le> k"
proof (cases "r = of_int k")
  case True
  then show ?thesis by (simp add: round_half_even_def)
next
  case False
  assume "r \<le> of_int k"
  then have "r < of_int k" using False by simp
  then have "\<lfloor>r\<rfloor> < k" by (simp add: floor_less_iff)
  then show ?thesis by (auto simp: round_half_even_def Let_def)
qed

lemma lg2_lower:
  assumes "0 < x"
  shows "2 powi lg2 x \<le> x"
proof -
  obtain p q where pq: "quotient_of x = (p, q)" by (cases "quotient_of x")
  have q: "0 < q" using pq by (rule quotient_of_denom_pos)
  have x: "x = of_int p / of_int q" using pq by (rule quotient_of_div)
  have p: "0 < p" using assms q x by (simp add: zero_less_divide_iff)
  let ?k = "bitlen p - bitlen q"
  show ?thesis
  proof (cases "(2::rat) powi ?k \<le> x")
    case True
    then show ?thesis by (simp add: lg2_def pq)
  next
    case False
    have bp: "2 ^ nat (bitlen p - 1) \<le> p" using bitlen_bounds [OF p] by simp
    have bq: "q < 2 ^ nat (bitlen q)" using bitlen_bounds [OF q] by simp
    have p1: "1 \<le> bitlen p" using p bitlen_eq_zero_iff [of p] bitlen_nonneg [of p] by linarith
    have "?k - 1 = (bitlen p - 1) - bitlen q" by simp
    then have "(2::rat) powi (?k - 1) = 2 powi (bitlen p - 1) / 2 powi (bitlen q)"
      by (simp only: power_int_diff [of "2::rat", simplified])
    also have "\<dots> = 2 ^ nat (bitlen p - 1) / 2 ^ nat (bitlen q)"
      using p1 bitlen_nonneg [of q] by (simp add: power_int_def)
    also have "\<dots> \<le> of_int p / 2 ^ nat (bitlen q)"
    proof -
      have "(2::rat) ^ nat (bitlen p - 1) \<le> of_int p"
        using bp by (metis of_int_le_iff of_int_numeral of_int_power)
      then show ?thesis by (simp add: divide_right_mono)
    qed
    also have "\<dots> \<le> of_int p / of_int q"
    proof -
      have "(of_int q :: rat) \<le> 2 ^ nat (bitlen q)"
        using bq by (metis less_imp_le of_int_le_iff of_int_numeral of_int_power)
      then show ?thesis using p q by (simp add: frac_le)
    qed
    finally have fin: "(2::rat) powi (?k - 1) \<le> of_int p / of_int q" .
    have "lg2 x = ?k - 1" using False by (simp add: lg2_def pq)
    then show ?thesis using fin x by simp
  qed
qed

lemma lg2_upper:
  assumes "0 < x"
  shows "x < 2 powi (lg2 x + 1)"
proof -
  obtain p q where pq: "quotient_of x = (p, q)" by (cases "quotient_of x")
  have q: "0 < q" using pq by (rule quotient_of_denom_pos)
  have x: "x = of_int p / of_int q" using pq by (rule quotient_of_div)
  have p: "0 < p" using assms q x by (simp add: zero_less_divide_iff)
  let ?k = "bitlen p - bitlen q"
  show ?thesis
  proof (cases "(2::rat) powi ?k \<le> x")
    case False
    then have "lg2 x = ?k - 1" by (simp add: lg2_def pq)
    then show ?thesis using False by simp
  next
    case True
    have bp: "p < 2 ^ nat (bitlen p)" using bitlen_bounds [OF p] by simp
    have bq: "2 ^ nat (bitlen q - 1) \<le> q" using bitlen_bounds [OF q] by simp
    have q1: "1 \<le> bitlen q" using q bitlen_eq_zero_iff [of q] bitlen_nonneg [of q] by linarith
    have pw: "(0::rat) < 2 ^ nat (bitlen q - 1)" by simp
    have "of_int p / of_int q \<le> of_int p / (2::rat) ^ nat (bitlen q - 1)"
    proof -
      have "(2::rat) ^ nat (bitlen q - 1) \<le> of_int q"
        using bq by (metis of_int_le_iff of_int_numeral of_int_power)
      then show ?thesis using p pw by (simp add: frac_le)
    qed
    also have "\<dots> < 2 ^ nat (bitlen p) / (2::rat) ^ nat (bitlen q - 1)"
    proof -
      have "(of_int p :: rat) < 2 ^ nat (bitlen p)"
        using bp by (metis of_int_less_iff of_int_numeral of_int_power)
      then show ?thesis using pw by (simp add: divide_strict_right_mono)
    qed
    also have "\<dots> = 2 powi (bitlen p) / 2 powi (bitlen q - 1)"
      using q1 bitlen_nonneg [of p] by (simp add: power_int_def)
    also have "\<dots> = 2 powi (bitlen p - (bitlen q - 1))"
      by (simp only: power_int_diff [of "2::rat", simplified])
    finally have fin: "of_int p / of_int q < (2::rat) powi (?k + 1)" by (simp add: algebra_simps)
    have "lg2 x = ?k" using True by (simp add: lg2_def pq)
    then show ?thesis using fin x by simp
  qed
qed

lemma lg2_unique:
  assumes "0 < x" and "2 powi l \<le> x" and "x < 2 powi (l + 1)"
  shows "lg2 x = l"
proof -
  have "(2::rat) powi lg2 x < 2 powi (l + 1)"
    using lg2_lower [OF assms(1)] assms(3) by simp
  then have a: "lg2 x < l + 1"
    by (metis linorder_not_less one_le_numeral power_int_increasing)
  have "(2::rat) powi l < 2 powi (lg2 x + 1)"
    using lg2_upper [OF assms(1)] assms(2) by simp
  then have b: "l < lg2 x + 1"
    by (metis linorder_not_less one_le_numeral power_int_increasing)
  show ?thesis using a b by simp
qed

lemma rounded_fine_grid:
  assumes "quantum_exp x \<le> 0"
  shows "(of_int d \<le> x \<longrightarrow> of_int d \<le> rounded x) \<and> (x \<le> of_int d \<longrightarrow> rounded x \<le> of_int d)"
proof -
  let ?E = "quantum_exp x"
  let ?q = "(2::rat) powi ?E"
  let ?k = "d * 2 ^ nat (- ?E)"
  have q: "0 < ?q" by simp
  have qi: "?q = 1 / 2 ^ nat (- ?E)"
    using assms by (simp add: power_int_def field_simps power_inverse)
  have dk: "(of_int d :: rat) = of_int ?k * ?q" by (simp add: qi)
  have dq: "(of_int d :: rat) / ?q = of_int ?k" by (simp add: qi)
  have a: "of_int d \<le> rounded x" if "of_int d \<le> x"
  proof -
    have "of_int d / ?q \<le> x / ?q" using that q by (simp add: divide_right_mono)
    then have "?k \<le> round_half_even (x / ?q)" unfolding dq by (rule rhe_ge)
    then have "(of_int ?k :: rat) \<le> of_int (round_half_even (x / ?q))" by (simp only: of_int_le_iff)
    then have "of_int ?k * ?q \<le> of_int (round_half_even (x / ?q)) * ?q"
      using q by (simp add: mult_right_mono)
    then show ?thesis unfolding dk [symmetric] rounded_def .
  qed
  have b: "rounded x \<le> of_int d" if "x \<le> of_int d"
  proof -
    have "x / ?q \<le> of_int d / ?q" using that q by (simp add: divide_right_mono)
    then have "round_half_even (x / ?q) \<le> ?k" unfolding dq by (rule rhe_le)
    then have "(of_int (round_half_even (x / ?q)) :: rat) \<le> of_int ?k" by (simp only: of_int_le_iff)
    then have "of_int (round_half_even (x / ?q)) * ?q \<le> of_int ?k * ?q"
      using q by (simp add: mult_right_mono)
    then show ?thesis unfolding dk [symmetric] rounded_def .
  qed
  show ?thesis using a b by blast
qed

lemma quantum_exp_coarse:
  assumes "0 < quantum_exp x"
  shows "2 powi (quantum_exp x + 52) \<le> \<bar>x\<bar>"
proof -
  have e: "quantum_exp x = lg2 \<bar>x\<bar> - 52" using assms by (simp add: quantum_exp_def max_def split: if_splits)
  have "x \<noteq> 0"
  proof
    assume "x = 0"
    then have "quantum_exp x = - 54" by (simp add: quantum_exp_def lg2_def bitlen_alt_def)
    then show False using assms by simp
  qed
  then have "0 < \<bar>x\<bar>" by simp
  then have "2 powi lg2 \<bar>x\<bar> \<le> \<bar>x\<bar>" by (rule lg2_lower)
  then show ?thesis by (simp add: e)
qed

lemma rounded_coarse_grid:
  assumes "0 < quantum_exp x" and "\<bar>d\<bar> \<le> 2 ^ 53"
  shows "(of_int d \<le> x \<longrightarrow> of_int d \<le> rounded x) \<and> (x \<le> of_int d \<longrightarrow> rounded x \<le> of_int d)"
proof -
  let ?E = "quantum_exp x"
  let ?q = "(2::rat) powi ?E"
  let ?r = "x / ?q"
  have q: "0 < ?q" by simp
  have "(2::rat) powi 1 \<le> ?q" using assms(1) by (intro power_int_increasing) simp_all
  then have q2: "2 \<le> ?q" by simp
  have big: "2 ^ 52 * ?q \<le> \<bar>x\<bar>"
    using quantum_exp_coarse [OF assms(1)] by (simp add: power_int_add mult.commute)
  have b53: "(2::rat) ^ 53 \<le> 2 ^ 52 * ?q" using q2 by simp
  have d: "- (2 ^ 53) \<le> (of_int d :: rat) \<and> (of_int d :: rat) \<le> 2 ^ 53"
  proof -
    have "- (2 ^ 53) \<le> d \<and> d \<le> 2 ^ 53" using assms(2) by linarith
    then have "(of_int (- (2 ^ 53)) :: rat) \<le> of_int d \<and> (of_int d :: rat) \<le> of_int (2 ^ 53)"
      by (simp only: of_int_le_iff)
    then show ?thesis by simp
  qed
  have rx: "rounded x = of_int (round_half_even ?r) * ?q" by (simp add: rounded_def)
  show ?thesis
  proof (cases "0 < x")
    case True
    then have xb: "2 ^ 52 * ?q \<le> x" using big by simp
    then have "of_int (2 ^ 52) \<le> ?r" using q by (simp add: pos_le_divide_eq)
    then have "2 ^ 52 \<le> round_half_even ?r" by (rule rhe_ge)
    then have "(of_int (2 ^ 52) :: rat) \<le> of_int (round_half_even ?r)" by (simp only: of_int_le_iff)
    then have lo: "2 ^ 52 * ?q \<le> rounded x" using q unfolding rx by (simp add: mult_right_mono)
    have up: "rounded x \<le> of_int d" if "x \<le> of_int d"
    proof -
      have "x = 2 ^ 52 * ?q" and dx: "of_int d = x" using that xb b53 d by linarith+
      then have "?r = of_int (2 ^ 52)" using q by (simp add: field_simps)
      then have "round_half_even ?r \<le> 2 ^ 52" by (intro rhe_le) simp
      then have "(of_int (round_half_even ?r) :: rat) \<le> of_int (2 ^ 52)" by (simp only: of_int_le_iff)
      then have "rounded x \<le> 2 ^ 52 * ?q" using q unfolding rx by (simp add: mult_right_mono)
      then show ?thesis using \<open>x = 2 ^ 52 * ?q\<close> dx by simp
    qed
    show ?thesis using lo b53 d up by force
  next
    case False
    then have xb: "x \<le> - (2 ^ 52 * ?q)" using big by simp
    then have "?r \<le> of_int (- (2 ^ 52))" using q by (simp add: pos_divide_le_eq)
    then have "round_half_even ?r \<le> - (2 ^ 52)" by (rule rhe_le)
    then have "(of_int (round_half_even ?r) :: rat) \<le> of_int (- (2 ^ 52))" by (simp only: of_int_le_iff)
    then have hi: "rounded x \<le> - (2 ^ 52 * ?q)" using q unfolding rx
      by (metis (no_types, opaque_lifting) mult_minus_left mult_right_mono of_int_minus of_int_numeral
          of_int_power order_less_imp_le)
    have low: "of_int d \<le> rounded x" if "of_int d \<le> x"
    proof -
      have "x = - (2 ^ 52 * ?q)" and dx: "of_int d = x" using that xb b53 d by linarith+
      then have "of_int (- (2 ^ 52)) \<le> ?r" using q by (simp add: field_simps)
      then have "- (2 ^ 52) \<le> round_half_even ?r" by (rule rhe_ge)
      then have "(of_int (- (2 ^ 52)) :: rat) \<le> of_int (round_half_even ?r)" by (simp only: of_int_le_iff)
      then have "- (2 ^ 52 * ?q) \<le> rounded x" using q unfolding rx
        by (metis (no_types, opaque_lifting) mult_minus_left mult_right_mono of_int_minus of_int_numeral
            of_int_power order_less_imp_le)
      then show ?thesis using \<open>x = - (2 ^ 52 * ?q)\<close> dx by simp
    qed
    show ?thesis using hi b53 d low by force
  qed
qed

lemma rounded_between:
  assumes "\<bar>d\<bar> \<le> 2 ^ 53"
  shows "(of_int d \<le> x \<longrightarrow> of_int d \<le> rounded x) \<and> (x \<le> of_int d \<longrightarrow> rounded x \<le> of_int d)"
proof (cases "quantum_exp x \<le> 0")
  case True
  then show ?thesis by (rule rounded_fine_grid)
next
  case False
  then have "0 < quantum_exp x" by simp
  then show ?thesis using assms by (rule rounded_coarse_grid)
qed

lemma rounded_eval:
  assumes "2 powi l \<le> \<bar>x\<bar>" and "\<bar>x\<bar> < 2 powi (l + 1)" and "- 1022 \<le> l"
  shows "rounded x = of_int (round_half_even (x / 2 powi (l - 52))) * 2 powi (l - 52)"
proof -
  have "0 < (2::rat) powi l" by simp
  then have "0 < \<bar>x\<bar>" using assms(1) by linarith
  then have "lg2 \<bar>x\<bar> = l" using assms(1,2) by (rule lg2_unique)
  then have "quantum_exp x = l - 52" using assms(3) by (simp add: quantum_exp_def)
  then show ?thesis by (simp add: rounded_def)
qed

lemma rhe_near:
  assumes "of_int k - 1 / 2 < r" and "r < of_int k + 1 / 2"
  shows "round_half_even r = k"
proof (cases "of_int k \<le> r")
  case True
  then have "\<lfloor>r\<rfloor> = k" using assms(2) by (intro floor_unique) auto
  then show ?thesis using assms(2) by (simp add: round_half_even_def Let_def)
next
  case False
  then have "\<lfloor>r\<rfloor> = k - 1" using assms(1) by (intro floor_unique) auto
  then show ?thesis using assms(1) by (simp add: round_half_even_def Let_def)
qed


text \<open>
  What the statements below use of the rounding: the rounded value of \<open>x\<close> lies on the same
  side of every whole number of magnitude up to \<open>2 ^ 53\<close> as \<open>x\<close> does. Such whole numbers
  are doubles, so they are rounded to themselves.
\<close>

lemma to_double_not_NaN: "to_double x \<noteq> NaN64"
  by (simp add: to_double_def)

lemma to_double_ge:
  assumes "\<bar>d\<bar> \<le> 2 ^ 53" and "of_int d \<le> x"
  shows "le64 (Fin64 (of_int d)) (to_double x)"
proof -
  have r: "of_int d \<le> rounded x" using rounded_between [OF assms(1), of x] assms(2) by blast
  have "- (2 ^ 53) \<le> d" using assms(1) by linarith
  then have "(of_int (- (2 ^ 53)) :: rat) \<le> of_int d" by (simp only: of_int_le_iff)
  then have "- (2 ^ 1024) < rounded x" using r by simp
  then show ?thesis using r assms(2) by (auto simp: to_double_def le64_def)
qed

lemma to_double_le:
  assumes "\<bar>d\<bar> \<le> 2 ^ 53" and "x \<le> of_int d"
  shows "le64 (to_double x) (Fin64 (of_int d))"
proof -
  have r: "rounded x \<le> of_int d" using rounded_between [OF assms(1), of x] assms(2) by blast
  have "d \<le> 2 ^ 53" using assms(1) by linarith
  then have "(of_int d :: rat) \<le> of_int (2 ^ 53)" by (simp only: of_int_le_iff)
  then have "rounded x < 2 ^ 1024" using r by simp
  then show ?thesis using r assms(2) by (auto simp: to_double_def le64_def)
qed

lemma to_double_of_int:
  assumes "\<bar>d\<bar> \<le> 2 ^ 53"
  shows "to_double (of_int d) = Fin64 (of_int d)"
proof -
  have a: "le64 (Fin64 (of_int d)) (to_double (of_int d))" using assms by (rule to_double_ge) simp
  have b: "le64 (to_double (of_int d)) (Fin64 (of_int d))" using assms by (rule to_double_le) simp
  show ?thesis using a b by (cases "to_double (of_int d)") (auto simp: le64_def)
qed

subsection \<open>The store on doubles\<close>

lemma Map_delete_filter64: "Map_delete64 k m = filter (\<lambda>kv. fst kv \<noteq> k) m"
  by (induction m) auto

lemma Map_get_map_of64: "Map_get64 m k = map_of m k"
  by (induction m) auto

lemma purge_step_filter64:
  "purge_step64 now kv m = (if stale64 now (snd kv) then filter (\<lambda>p. fst p \<noteq> fst kv) m else m)"
  by (cases kv) (simp add: purge_step64_def stale64_def Map_delete_filter64)

lemma purge_visit_filter64:
  "purge_visit64 now vs m = filter (\<lambda>kv. \<forall>p \<in> set vs. stale64 now (snd p) \<longrightarrow> fst p \<noteq> fst kv) m"
proof (induction vs arbitrary: m)
  case Nil
  show ?case by (simp add: purge_visit64_def)
next
  case (Cons v vs)
  have "purge_visit64 now (v # vs) m = purge_visit64 now vs (purge_step64 now v m)"
    by (simp add: purge_visit64_def)
  also have "\<dots> = filter (\<lambda>kv. \<forall>p \<in> set vs. stale64 now (snd p) \<longrightarrow> fst p \<noteq> fst kv) (purge_step64 now v m)"
    by (rule Cons.IH)
  also have "\<dots> = filter (\<lambda>kv. \<forall>p \<in> set (v # vs). stale64 now (snd p) \<longrightarrow> fst p \<noteq> fst kv) m"
    by (auto simp: purge_step_filter64 intro: filter_cong)
  finally show ?case .
qed

lemma purge_visit_distinct64:
  assumes "distinct (map fst m)" and "set vs = set m"
  shows "purge_visit64 now vs m = filter (\<lambda>kv. \<not> stale64 now (snd kv)) m"
proof -
  have "\<And>kv. kv \<in> set m \<Longrightarrow>
      (\<forall>p \<in> set vs. stale64 now (snd p) \<longrightarrow> fst p \<noteq> fst kv) = (\<not> stale64 now (snd kv))"
  proof -
    fix kv assume kv: "kv \<in> set m"
    have uniq: "\<And>p. p \<in> set m \<Longrightarrow> fst p = fst kv \<Longrightarrow> p = kv"
      using assms(1) kv by (auto simp: distinct_map dest: inj_onD)
    show "(\<forall>p \<in> set vs. stale64 now (snd p) \<longrightarrow> fst p \<noteq> fst kv) = (\<not> stale64 now (snd kv))"
      using kv uniq assms(2) by auto
  qed
  then show ?thesis
    unfolding purge_visit_filter64 by (intro filter_cong) auto
qed

lemma purgeExpired_keyfilter64:
  "purgeExpired64 now m = filter (\<lambda>kv. \<forall>p \<in> set m. stale64 now (snd p) \<longrightarrow> fst p \<noteq> fst kv) m"
  by (simp add: purgeExpired64_def purge_visit_filter64)

lemma purgeExpired_distinct64:
  "distinct (map fst m) \<Longrightarrow> purgeExpired64 now m = filter (\<lambda>kv. \<not> stale64 now (snd kv)) m"
  by (simp add: purgeExpired64_def purge_visit_distinct64)

lemma set_purgeExpired64: "set (purgeExpired64 now m) \<subseteq> set m"
  by (simp add: purgeExpired_keyfilter64)

lemma purged_not_stale64: "kv \<in> set (purgeExpired64 now m) \<Longrightarrow> \<not> stale64 now (snd kv)"
  by (auto simp: purgeExpired_keyfilter64)

lemma distinct_purgeExpired64: "distinct (map fst m) \<Longrightarrow> distinct (map fst (purgeExpired64 now m))"
  by (simp add: purgeExpired_keyfilter64 distinct_map_filter)

lemma Map_get_Some_iff64: "distinct (map fst m) \<Longrightarrow> (Map_get64 m k = Some v) = ((k, v) \<in> set m)"
  by (simp add: Map_get_map_of64)

lemma Map_get_None_iff64: "(Map_get64 m k = None) = (k \<notin> fst ` set m)"
  by (simp add: Map_get_map_of64 map_of_eq_None_iff)

lemma Map_get_Map_set64: "Map_get64 (Map_set64 k v m) k' = (if k' = k then Some v else Map_get64 m k')"
  by (induction m) auto

lemma set_Map_set64: "set (Map_set64 k v m) \<subseteq> insert (k, v) (set m)"
  by (induction m) (auto split: if_splits)

lemma map_fst_Map_set64:
  "map fst (Map_set64 k v m) = (if k \<in> set (map fst m) then map fst m else map fst m @ [k])"
  by (induction m) (simp_all, force)

lemma distinct_Map_set64: "distinct (map fst m) \<Longrightarrow> distinct (map fst (Map_set64 k v m))"
  by (simp add: map_fst_Map_set64)

lemma set_Map_delete64: "set (Map_delete64 k m) \<subseteq> set m"
  by (auto simp: Map_delete_filter64)

lemma distinct_Map_delete64: "distinct (map fst m) \<Longrightarrow> distinct (map fst (Map_delete64 k m))"
  by (simp add: Map_delete_filter64 distinct_map_filter)

lemma Map_get_in_set64: "Map_get64 m k = Some e \<Longrightarrow> (k, e) \<in> set m"
  by (induction m) (auto split: if_splits)

lemma found_after_sweep_not_stale64:
  "Map_get64 (purgeExpired64 now m) c = Some e \<Longrightarrow> \<not> stale64 now e"
  using purged_not_stale64 [of "(c, e)" now m] by (auto dest: Map_get_in_set64)

lemma live_not_stale64: "live64 now e \<Longrightarrow> \<not> stale64 now e"
  by (auto simp: live64_def stale64_def gt64_def le64_def)

lemma not_stale_live64: "expiresAt64 e \<noteq> NaN64 \<Longrightarrow> \<not> stale64 now e \<Longrightarrow> live64 now e"
  by (auto simp: live64_def stale64_def gt64_def le64_def)

lemma store_ok_purgeExpired64: "store_ok64 m \<Longrightarrow> store_ok64 (purgeExpired64 now m)"
  using set_purgeExpired64 [of now m] by (auto simp: store_ok64_def distinct_purgeExpired64)

lemma store_ok_Map_set64: "store_ok64 m \<Longrightarrow> expiresAt64 v \<noteq> NaN64 \<Longrightarrow> store_ok64 (Map_set64 k v m)"
  using set_Map_set64 [of k v m] by (auto simp: store_ok64_def distinct_Map_set64)

lemma store_ok_Map_delete64: "store_ok64 m \<Longrightarrow> store_ok64 (Map_delete64 k m)"
  using set_Map_delete64 [of k m] by (auto simp: store_ok64_def distinct_Map_delete64)

lemma store_ok_get64: "store_ok64 m \<Longrightarrow> Map_get64 m k = Some e \<Longrightarrow> expiresAt64 e \<noteq> NaN64"
  by (force simp: store_ok64_def Map_get_Some_iff64)

lemma useOnce_cases64:
  "useOnce64 c t0 t1 t2 m =
     (case Map_get64 (purgeExpired64 t0 m) c of
        None \<Rightarrow> (False, purgeExpired64 t0 m)
      | Some e \<Rightarrow>
          if stale64 t1 e then (False, Map_delete64 c (purgeExpired64 t0 m))
          else (True, purgeExpired64 t2 (Map_set64 c (e\<lparr>used64 := True\<rparr>) (purgeExpired64 t0 m))))"
  by (simp add: useOnce64_def Let_def stale64_def split: option.splits)

lemma purgeExpired_live_filter64:
  assumes "store_ok64 m"
  shows "purgeExpired64 now m = filter (\<lambda>kv. live64 now (snd kv)) m"
proof -
  have "purgeExpired64 now m = filter (\<lambda>kv. \<not> stale64 now (snd kv)) m"
    using assms by (simp add: store_ok64_def purgeExpired_distinct64)
  also have "\<dots> = filter (\<lambda>kv. live64 now (snd kv)) m"
    using assms by (intro filter_cong) (auto simp: store_ok64_def live_not_stale64 not_stale_live64)
  finally show ?thesis .
qed

lemma all_live_purgeExpired64:
  "store_ok64 m \<Longrightarrow> list_all (\<lambda>kv. live64 now (snd kv)) (purgeExpired64 now m)"
  by (simp add: purgeExpired_live_filter64 list_all_iff)

lemma useOnce_single_clock64:
  "snd (useOnce64 c now now now m)
     = (case Map_get64 (purgeExpired64 now m) c of
          None \<Rightarrow> purgeExpired64 now m
        | Some e \<Rightarrow> purgeExpired64 now (Map_set64 c (e\<lparr>used64 := True\<rparr>) (purgeExpired64 now m)))"
  using found_after_sweep_not_stale64 [of now m c]
  by (auto simp: useOnce_cases64 split: option.splits)

lemma all_live_useOnce64:
  assumes "store_ok64 m"
  shows "list_all (\<lambda>kv. live64 now (snd kv)) (snd (useOnce64 c now now now m))"
proof (cases "Map_get64 (purgeExpired64 now m) c")
  case None
  then show ?thesis using assms by (simp add: useOnce_single_clock64 all_live_purgeExpired64)
next
  case (Some e)
  have ok1: "store_ok64 (purgeExpired64 now m)" using assms by (rule store_ok_purgeExpired64)
  then have "expiresAt64 e \<noteq> NaN64" using Some by (rule store_ok_get64)
  then have "store_ok64 (Map_set64 c (e\<lparr>used64 := True\<rparr>) (purgeExpired64 now m))"
    using ok1 by (simp add: store_ok_Map_set64)
  then show ?thesis using Some by (simp add: useOnce_single_clock64 all_live_purgeExpired64)
qed

subsection \<open>The capped duration and the expiry on doubles\<close>

lemma time_value_exact:
  assumes "time_value t"
  shows "\<bar>t\<bar> \<le> 2 ^ 53" and "\<bar>t + 1\<bar> \<le> 2 ^ 53" and "\<bar>t - 1\<bar> \<le> 2 ^ 53"
  using assms by (simp_all add: time_value_def)

lemma capped_cases:
  "capped n = NegInf64 \<or> (\<exists>c. capped n = Fin64 c \<and> c \<le> of_int MAX_MS)"
  by (cases n) (auto simp: capped_def Math_min64_def or_zero64_def MAX_MS_def)

lemma capped_Fin64: "capped (Fin64 x) = Fin64 (min x (of_int MAX_MS))"
  by (auto simp: capped_def Math_min64_def or_zero64_def MAX_MS_def)

lemma capped_nonneg:
  assumes "\<not> lt64 n (Fin64 0)"
  shows "\<exists>c. capped n = Fin64 c \<and> 0 \<le> c \<and> c \<le> of_int MAX_MS"
  using assms by (cases n) (auto simp: capped_def Math_min64_def or_zero64_def MAX_MS_def)

lemma capped_negative:
  assumes "lt64 n (Fin64 0)"
  shows "capped n = n \<and> (n = NegInf64 \<or> (\<exists>x. n = Fin64 x \<and> x < 0))"
  using assms by (cases n) (auto simp: capped_def Math_min64_def or_zero64_def MAX_MS_def)

lemma expiry64_not_NaN: "add64 (Fin64 t) (capped n) \<noteq> NaN64"
  using capped_cases [of n] by (auto simp: to_double_not_NaN)

lemma expiry64_not_before:
  assumes "time_value t" and "capped n = Fin64 c" and "0 \<le> c"
  shows "le64 (Fin64 (of_int t)) (add64 (Fin64 (of_int t)) (capped n))"
  using to_double_ge [OF time_value_exact(1) [OF assms(1)], of "of_int t + c"] assms(2,3) by simp

lemma expiry64_not_after:
  assumes "time_value t" and "capped n = NegInf64 \<or> (\<exists>c. capped n = Fin64 c \<and> c \<le> 0)"
  shows "le64 (add64 (Fin64 (of_int t)) (capped n)) (Fin64 (of_int t))"
proof (cases "capped n = NegInf64")
  case True
  then show ?thesis by (simp add: le64_def)
next
  case False
  then obtain c where c: "capped n = Fin64 c" "c \<le> 0" using assms(2) by blast
  then show ?thesis
    using to_double_le [OF time_value_exact(1) [OF assms(1)], of "of_int t + c"] by simp
qed

lemma expiry64_after:
  assumes "time_value t" and "capped n = Fin64 c" and "1 \<le> c"
  shows "gt64 (add64 (Fin64 (of_int t)) (capped n)) (Fin64 (of_int t))"
proof -
  have "le64 (Fin64 (of_int (t + 1))) (to_double (of_int t + c))"
    using time_value_exact(2) [OF assms(1)] assms(3) by (intro to_double_ge) simp_all
  then show ?thesis
    using assms(2) by (cases "to_double (of_int t + c)") (auto simp: le64_def gt64_def)
qed

lemma expiry64_before:
  assumes "time_value t" and "capped n = NegInf64 \<or> (\<exists>c. capped n = Fin64 c \<and> c \<le> - 1)"
  shows "lt64 (add64 (Fin64 (of_int t)) (capped n)) (Fin64 (of_int t))"
proof (cases "capped n = NegInf64")
  case True
  then show ?thesis by simp
next
  case False
  then obtain c where c: "capped n = Fin64 c" "c \<le> - 1" using assms(2) by blast
  have "le64 (to_double (of_int t + c)) (Fin64 (of_int (t - 1)))"
    using time_value_exact(3) [OF assms(1)] c(2) by (intro to_double_le) simp_all
  then show ?thesis
    using c(1) by (cases "to_double (of_int t + c)") (auto simp: le64_def)
qed

lemma issue64_cases:
  assumes "ToNumber d = Inr n"
  shows "issue64 c d t0 t1 m =
     (Inr (case Map_get64 (purgeExpired64 t0 m) c of None \<Rightarrow> False | Some e \<Rightarrow> live64 t1 e),
      Map_set64 c \<lparr>expiresAt64 = add64 (Fin64 (of_int t1)) (capped n), used64 = False\<rparr>
        (purgeExpired64 t0 m))"
  using assms by (simp add: issue64_def cappedDuration64_def Let_def live64_def split: option.splits)

lemma issue64_throws:
  assumes "ToNumber d = Inl err"
  shows "issue64 c d t0 t1 m = (Inl err, purgeExpired64 t0 m)"
  using assms by (simp add: issue64_def cappedDuration64_def)

lemma Map_get_issue64_same:
  assumes "ToNumber d = Inr n"
  shows "Map_get64 (snd (issue64 c d t0 t1 m)) c
     = Some \<lparr>expiresAt64 = add64 (Fin64 (of_int t1)) (capped n), used64 = False\<rparr>"
  by (simp add: issue64_cases [OF assms] Map_get_Map_set64)

lemma store_ok_issue64: "store_ok64 m \<Longrightarrow> store_ok64 (snd (issue64 c d t0 t1 m))"
proof (cases "ToNumber d")
  case (Inl err)
  assume "store_ok64 m"
  then show ?thesis by (simp add: issue64_throws [OF Inl] store_ok_purgeExpired64)
next
  case (Inr n)
  assume "store_ok64 m"
  then show ?thesis
    by (simp add: issue64_cases [OF Inr] store_ok_Map_set64 store_ok_purgeExpired64 expiry64_not_NaN)
qed

lemma others_live_issue64:
  assumes "store_ok64 m"
  shows "list_all (\<lambda>kv. fst kv = c \<or> live64 now (snd kv)) (snd (issue64 c d now now m))"
proof (cases "ToNumber d")
  case (Inl err)
  have "list_all (\<lambda>kv. live64 now (snd kv)) (purgeExpired64 now m)"
    using assms by (rule all_live_purgeExpired64)
  then show ?thesis by (simp add: issue64_throws [OF Inl] list_all_iff)
next
  case (Inr n)
  let ?new = "\<lparr>expiresAt64 = add64 (Fin64 (of_int now)) (capped n), used64 = False\<rparr>"
  have "\<forall>kv \<in> set (purgeExpired64 now m). live64 now (snd kv)"
    using all_live_purgeExpired64 [OF assms, of now] by (simp add: list_all_iff)
  then have "\<forall>kv \<in> set (Map_set64 c ?new (purgeExpired64 now m)). fst kv = c \<or> live64 now (snd kv)"
    using set_Map_set64 [of c ?new "purgeExpired64 now m"] by auto
  then show ?thesis by (simp add: issue64_cases [OF Inr] list_all_iff)
qed

subsection \<open>The effective duration\<close>

text \<open>
  Claim C4, as the code has it, on doubles. When \<^verbatim>\<open>Number(durationMs)\<close> returns a Number
  \<open>n\<close>, the effective duration is \<open>capped n\<close>, that is \<^verbatim>\<open>Math.min(n || 0, MAX_MS)\<close>. It is
  never above \<^verbatim>\<open>MAX_MS\<close>; NaN (a missing or undefined duration, a string that is no
  number) counts as 0; a finite \<open>x\<close> becomes \<open>min x MAX_MS\<close> and \<^verbatim>\<open>Infinity\<close> becomes
  \<^verbatim>\<open>MAX_MS\<close>; \<^verbatim>\<open>null\<close> and \<^verbatim>\<open>false\<close> are 0 and \<^verbatim>\<open>true\<close> is 1 ms. The entry stored has
  \<^verbatim>\<open>expiresAt = now + cappedDuration\<close>, rounded to a double.
  When the duration is not negative, the effective duration is in \<open>[0, MAX_MS]\<close> and the
  stored \<^verbatim>\<open>expiresAt\<close> is at least \<^verbatim>\<open>now\<close>. The code has no lower bound: a negative
  duration is used as it is, and the stored \<^verbatim>\<open>expiresAt\<close> is then at most \<^verbatim>\<open>now\<close>, and
  before \<^verbatim>\<open>now\<close> when the duration is \<open>-1\<close> ms or less (a smaller negative fraction can be
  lost when the sum is rounded). For a Symbol the conversion throws: the call ends with a
  TypeError after its sweep and stores nothing.
\<close>

theorem duration_capped_above:
  assumes "ToNumber d = Inr n" and "time_value t1"
  shows "cappedDuration64 d = Inr (capped n)
   \<and> le64 (capped n) (Fin64 (of_int MAX_MS))
   \<and> (n = NaN64 \<longrightarrow> capped n = Fin64 0)
   \<and> (n = Fin64 x \<longrightarrow> capped n = Fin64 (min x (of_int MAX_MS)))
   \<and> (n = PosInf64 \<longrightarrow> capped n = Fin64 (of_int MAX_MS))
   \<and> Map_get64 (snd (issue64 c d t0 t1 m)) c
       = Some \<lparr>expiresAt64 = add64 (Fin64 (of_int t1)) (capped n), used64 = False\<rparr>
   \<and> (\<not> lt64 n (Fin64 0) \<longrightarrow>
        le64 (Fin64 0) (capped n)
        \<and> le64 (Fin64 (of_int t1)) (add64 (Fin64 (of_int t1)) (capped n)))
   \<and> (lt64 n (Fin64 0) \<longrightarrow>
        capped n = n
        \<and> le64 (add64 (Fin64 (of_int t1)) (capped n)) (Fin64 (of_int t1)))
   \<and> (le64 n (Fin64 (- 1)) \<longrightarrow>
        lt64 (add64 (Fin64 (of_int t1)) (capped n)) (Fin64 (of_int t1)))
   \<and> cappedDuration64 Undefined = Inr (Fin64 0)
   \<and> cappedDuration64 Null = Inr (Fin64 0)
   \<and> cappedDuration64 (Boolean False) = Inr (Fin64 0)
   \<and> cappedDuration64 (Boolean True) = Inr (Fin64 1)
   \<and> issue64 c Symbol t0 t1 m = (Inl TypeError, purgeExpired64 t0 m)"
proof -
  have a: "cappedDuration64 d = Inr (capped n)"
    using assms(1) by (simp add: cappedDuration64_def)
  have b: "le64 (capped n) (Fin64 (of_int MAX_MS))"
    using capped_cases [of n] by (auto simp: le64_def)
  have c1: "n = NaN64 \<longrightarrow> capped n = Fin64 0"
    by (simp add: capped_def Math_min64_def or_zero64_def MAX_MS_def)
  have c2: "n = Fin64 x \<longrightarrow> capped n = Fin64 (min x (of_int MAX_MS))"
    by (simp add: capped_Fin64)
  have c3: "n = PosInf64 \<longrightarrow> capped n = Fin64 (of_int MAX_MS)"
    by (simp add: capped_def Math_min64_def or_zero64_def)
  have e: "\<not> lt64 n (Fin64 0) \<longrightarrow>
        le64 (Fin64 0) (capped n)
        \<and> le64 (Fin64 (of_int t1)) (add64 (Fin64 (of_int t1)) (capped n))"
  proof
    assume "\<not> lt64 n (Fin64 0)"
    then obtain k where k: "capped n = Fin64 k" "0 \<le> k" using capped_nonneg by blast
    have "le64 (Fin64 (of_int t1)) (add64 (Fin64 (of_int t1)) (capped n))"
      using assms(2) k by (rule expiry64_not_before)
    then show "le64 (Fin64 0) (capped n)
        \<and> le64 (Fin64 (of_int t1)) (add64 (Fin64 (of_int t1)) (capped n))"
      using k by (simp add: le64_def)
  qed
  have f: "lt64 n (Fin64 0) \<longrightarrow>
        capped n = n \<and> le64 (add64 (Fin64 (of_int t1)) (capped n)) (Fin64 (of_int t1))"
  proof
    assume "lt64 n (Fin64 0)"
    then have neg: "capped n = n \<and> (n = NegInf64 \<or> (\<exists>x. n = Fin64 x \<and> x < 0))"
      by (rule capped_negative)
    then have "capped n = NegInf64 \<or> (\<exists>k. capped n = Fin64 k \<and> k \<le> 0)" by auto
    then have "le64 (add64 (Fin64 (of_int t1)) (capped n)) (Fin64 (of_int t1))"
      using assms(2) by (intro expiry64_not_after)
    then show "capped n = n \<and> le64 (add64 (Fin64 (of_int t1)) (capped n)) (Fin64 (of_int t1))"
      using neg by simp
  qed
  have g: "le64 n (Fin64 (- 1)) \<longrightarrow>
        lt64 (add64 (Fin64 (of_int t1)) (capped n)) (Fin64 (of_int t1))"
  proof
    assume h: "le64 n (Fin64 (- 1))"
    then have "lt64 n (Fin64 0)" by (cases n) (auto simp: le64_def)
    then have neg: "capped n = n" using capped_negative by blast
    have "n = NegInf64 \<or> (\<exists>k. n = Fin64 k \<and> k \<le> - 1)"
      using h by (cases n) (auto simp: le64_def)
    then have "capped n = NegInf64 \<or> (\<exists>k. capped n = Fin64 k \<and> k \<le> - 1)"
      using neg by simp
    then show "lt64 (add64 (Fin64 (of_int t1)) (capped n)) (Fin64 (of_int t1))"
      using assms(2) by (intro expiry64_before)
  qed
  have u: "cappedDuration64 Undefined = Inr (Fin64 0)"
    and nl: "cappedDuration64 Null = Inr (Fin64 0)"
    and bf: "cappedDuration64 (Boolean False) = Inr (Fin64 0)"
    and bt: "cappedDuration64 (Boolean True) = Inr (Fin64 1)"
    by (simp_all add: cappedDuration64_def capped_def Math_min64_def or_zero64_def MAX_MS_def)
  have sy: "issue64 c Symbol t0 t1 m = (Inl TypeError, purgeExpired64 t0 m)"
    by (simp add: issue64_throws)
  show ?thesis
    using a b c1 c2 c3 e f g u nl bf bt sy Map_get_issue64_same [OF assms(1), of c t0 t1 m]
    by blast
qed

theorem duration_capped_above_witness:
  "ToNumber (Number (Fin64 600000)) = Inr (Fin64 600000)
   \<and> time_value 1000
   \<and> cappedDuration64 (Number (Fin64 600000)) = Inr (Fin64 300000)
   \<and> ToNumber (Number (Fin64 (1 / 2))) = Inr (Fin64 (1 / 2))
   \<and> capped (Fin64 (1 / 2)) = Fin64 (1 / 2)
   \<and> le64 (Fin64 1000) (add64 (Fin64 1000) (capped (Fin64 (1 / 2))))
   \<and> ToNumber (Number (Fin64 (- 5))) = Inr (Fin64 (- 5))
   \<and> capped (Fin64 (- 5)) = Fin64 (- 5)
   \<and> lt64 (add64 (Fin64 1000) (capped (Fin64 (- 5)))) (Fin64 1000)
   \<and> ToNumber Undefined = Inr NaN64
   \<and> capped NaN64 = Fin64 0"
proof -
  have tv: "time_value 1000" by (simp add: time_value_def)
  have n1: "ToNumber (Number (Fin64 600000)) = Inr (Fin64 600000)" by simp
  have n2: "ToNumber (Number (Fin64 (1 / 2))) = Inr (Fin64 (1 / 2))" by simp
  have n3: "ToNumber (Number (Fin64 (- 5))) = Inr (Fin64 (- 5))" by simp
  have n4: "ToNumber Undefined = Inr NaN64" by simp
  have p2: "\<not> lt64 (Fin64 (1 / 2)) (Fin64 0)" by simp
  have p3: "le64 (Fin64 (- 5)) (Fin64 (- 1))" by (simp add: le64_def)
  have p3': "lt64 (Fin64 (- 5)) (Fin64 0)" by simp
  note t1 = duration_capped_above [OF n1 tv, of 600000 1 1000 "[]", unfolded of_int_numeral]
  note t2 = duration_capped_above [OF n2 tv, of "1 / 2" 1 1000 "[]", unfolded of_int_numeral]
  note t3 = duration_capped_above [OF n3 tv, of "- 5" 1 1000 "[]", unfolded of_int_numeral]
  note t4 = duration_capped_above [OF n4 tv, of 0 1 1000 "[]", unfolded of_int_numeral]
  have "capped (Fin64 600000) = Fin64 (min 600000 (of_int MAX_MS))" using t1 by blast
  then have "capped (Fin64 600000) = Fin64 300000" by (simp add: MAX_MS_def)
  moreover have "cappedDuration64 (Number (Fin64 600000)) = Inr (capped (Fin64 600000))"
    using t1 by blast
  ultimately have a: "cappedDuration64 (Number (Fin64 600000)) = Inr (Fin64 300000)" by simp
  have "capped (Fin64 (1 / 2)) = Fin64 (min (1 / 2) (of_int MAX_MS))" using t2 by blast
  then have b: "capped (Fin64 (1 / 2)) = Fin64 (1 / 2)" by (simp add: MAX_MS_def)
  have c: "le64 (Fin64 1000) (add64 (Fin64 1000) (capped (Fin64 (1 / 2))))"
    using t2 p2 by blast
  have d: "capped (Fin64 (- 5)) = Fin64 (- 5)" using t3 p3' by blast
  have e: "lt64 (add64 (Fin64 1000) (capped (Fin64 (- 5)))) (Fin64 1000)"
    using t3 p3 by blast
  have f: "capped NaN64 = Fin64 0" using t4 by blast
  show ?thesis
    by (intro conjI) (rule n1, rule tv, rule a, rule n2, rule b, rule c, rule n3, rule d, rule e,
        rule n4, rule f)
qed

text \<open>
  The claim as written fails for a negative duration: \<open>issue\<close> with \<open>-5\<close> at time 1000
  uses the duration \<open>-5\<close>, which is not in \<open>[0, MAX_MS]\<close>, and stores the expiry 995, which
  is before the current time.
\<close>

theorem negative_duration_not_clamped_counterexample:
  "cappedDuration64 (Number (Fin64 (- 5))) = Inr (Fin64 (- 5))
   \<and> le64 (Fin64 0) (Fin64 (- 5)) = False
   \<and> issue64 1 (Number (Fin64 (- 5))) 1000 1000 createOtpStore64
       = (Inr False, [(1, \<lparr>expiresAt64 = Fin64 995, used64 = False\<rparr>)])
   \<and> le64 (Fin64 1000) (Fin64 995) = False"
proof -
  have "to_double 995 = Fin64 995" using to_double_of_int [of 995] by simp
  then show ?thesis
    by (simp add: createOtpStore64_def issue64_def cappedDuration64_def capped_def Math_min64_def
        or_zero64_def MAX_MS_def purgeExpired64_def purge_visit64_def le64_def)
qed

text \<open>
  Fractions of a millisecond can vanish in the sum. At the time value 1793577600000 the
  doubles are \<open>2 powi (- 12)\<close> apart, so adding or subtracting \<open>2 powi (- 14)\<close> ms gives the
  time value again.
\<close>

lemma fraction_lost_in_rounding:
  "add64 (Fin64 1793577600000) (Fin64 (1 / 16384)) = Fin64 1793577600000
   \<and> add64 (Fin64 1793577600000) (Fin64 (- (1 / 16384))) = Fin64 1793577600000"
proof -
  let ?x = "1793577600000 + 1 / 16384 :: rat"
  let ?y = "1793577600000 + - (1 / 16384) :: rat"
  have "rounded ?x = of_int (round_half_even (?x / 2 powi (40 - 52))) * 2 powi (40 - 52)"
    by (rule rounded_eval) (simp_all add: power_int_def)
  moreover have "round_half_even (?x / 2 powi (40 - 52)) = 7346493849600000"
    by (rule rhe_near) (simp_all add: power_int_def power_divide)
  ultimately have x: "rounded ?x = 1793577600000" by (simp add: power_int_def power_divide)
  have "rounded ?y = of_int (round_half_even (?y / 2 powi (40 - 52))) * 2 powi (40 - 52)"
    by (rule rounded_eval) (simp_all add: power_int_def)
  moreover have "round_half_even (?y / 2 powi (40 - 52)) = 7346493849600000"
    by (rule rhe_near) (simp_all add: power_int_def power_divide)
  ultimately have y: "rounded ?y = 1793577600000" by (simp add: power_int_def power_divide)
  have "to_double ?x = Fin64 1793577600000" using x by (simp add: to_double_def)
  moreover have "to_double ?y = Fin64 1793577600000" using y by (simp add: to_double_def)
  ultimately show ?thesis by simp
qed

text \<open>
  A large sum is rounded too: \<open>1 + -9007199254740994\<close> lies halfway between two doubles and
  goes to the one with the even significand.
\<close>

lemma rhe_tie:
  assumes "r = of_int f + 1 / 2"
  shows "round_half_even r = (if even f then f else f + 1)"
proof -
  have "\<lfloor>r\<rfloor> = f" unfolding assms by (intro floor_unique) auto
  then show ?thesis using assms by (simp add: round_half_even_def Let_def)
qed

lemma large_sum_rounded:
  "add64 (Fin64 1) (Fin64 (- 9007199254740994)) = Fin64 (- 9007199254740992)"
proof -
  let ?x = "1 + - 9007199254740994 :: rat"
  have "rounded ?x = of_int (round_half_even (?x / 2 powi (53 - 52))) * 2 powi (53 - 52)"
    by (rule rounded_eval) simp_all
  moreover have "round_half_even (?x / 2 powi (53 - 52)) = - 4503599627370496"
    using rhe_tie [of "?x / 2 powi (53 - 52)" "- 4503599627370497"] by simp
  ultimately have "rounded ?x = - 9007199254740992" by simp
  then have "to_double ?x = Fin64 (- 9007199254740992)" by (simp add: to_double_def)
  then show ?thesis by simp
qed

subsection \<open>Only live entries\<close>

text \<open>
  Claim C5, as the code has it, on doubles, with one clock reading \<^verbatim>\<open>now\<close> for the whole
  call and a store the program can be in. The store an operation observes after its initial
  sweep holds only live entries, and so does the store \<open>useOnce\<close> leaves, and the store
  \<open>issue\<close> leaves when the conversion of its duration throws. In the store \<open>issue c d\<close>
  leaves otherwise, every entry of another code is live, and the entry of \<open>c\<close> is the one
  just written, unconsumed, with \<^verbatim>\<open>expiresAt = now + cappedDuration\<close>. That entry is not live
  when the effective duration is zero or negative. It is live, and with it every entry of
  the store, when the effective duration is one millisecond or more; a shorter positive
  duration can be lost when the sum is rounded.
\<close>

theorem only_live_entries_after_operation:
  assumes "store_ok64 m" and "time_value now" and "ToNumber d = Inr n"
  shows "list_all (\<lambda>kv. live64 now (snd kv)) (purgeExpired64 now m)
   \<and> list_all (\<lambda>kv. live64 now (snd kv)) (snd (useOnce64 c now now now m))
   \<and> list_all (\<lambda>kv. fst kv = c \<or> live64 now (snd kv)) (snd (issue64 c d now now m))
   \<and> Map_get64 (snd (issue64 c d now now m)) c
       = Some \<lparr>expiresAt64 = add64 (Fin64 (of_int now)) (capped n), used64 = False\<rparr>
   \<and> (\<not> lt64 (Fin64 0) (capped n) \<longrightarrow>
        \<not> live64 now \<lparr>expiresAt64 = add64 (Fin64 (of_int now)) (capped n), used64 = False\<rparr>)
   \<and> (le64 (Fin64 1) (capped n) \<longrightarrow>
        list_all (\<lambda>kv. live64 now (snd kv)) (snd (issue64 c d now now m)))
   \<and> snd (issue64 c Symbol now now m) = purgeExpired64 now m"
proof -
  let ?new = "\<lparr>expiresAt64 = add64 (Fin64 (of_int now)) (capped n), used64 = False\<rparr>"
  let ?after = "snd (issue64 c d now now m)"
  have o: "list_all (\<lambda>kv. fst kv = c \<or> live64 now (snd kv)) ?after"
    using assms(1) by (rule others_live_issue64)
  have g: "Map_get64 ?after c = Some ?new" using assms(3) by (rule Map_get_issue64_same)
  have "store_ok64 ?after" using assms(1) by (rule store_ok_issue64)
  then have dist: "distinct (map fst ?after)" by (simp add: store_ok64_def)
  have only: "\<And>k v. (k, v) \<in> set ?after \<Longrightarrow> k = c \<Longrightarrow> v = ?new"
    using g dist by (auto simp: Map_get_Some_iff64 [symmetric])
  have nonpos: "\<not> lt64 (Fin64 0) (capped n) \<longrightarrow> \<not> live64 now ?new"
  proof
    assume "\<not> lt64 (Fin64 0) (capped n)"
    then have "capped n = NegInf64 \<or> (\<exists>k. capped n = Fin64 k \<and> k \<le> 0)"
      using capped_cases [of n] by auto
    then have "le64 (add64 (Fin64 (of_int now)) (capped n)) (Fin64 (of_int now))"
      using assms(2) by (intro expiry64_not_after)
    then show "\<not> live64 now ?new" by (simp add: live64_def gt64_def le64_def)
  qed
  have pos: "le64 (Fin64 1) (capped n) \<longrightarrow> list_all (\<lambda>kv. live64 now (snd kv)) ?after"
  proof
    assume "le64 (Fin64 1) (capped n)"
    then obtain k where k: "capped n = Fin64 k" "1 \<le> k"
      using capped_cases [of n] by (auto simp: le64_def)
    have "gt64 (add64 (Fin64 (of_int now)) (capped n)) (Fin64 (of_int now))"
      using assms(2) k by (rule expiry64_after)
    then have l: "live64 now ?new" by (simp add: live64_def)
    show "list_all (\<lambda>kv. live64 now (snd kv)) ?after"
      unfolding list_all_iff
    proof
      fix kv assume i: "kv \<in> set ?after"
      then have "fst kv = c \<or> live64 now (snd kv)" using o by (simp add: list_all_iff)
      then show "live64 now (snd kv)"
        using only [of "fst kv" "snd kv"] i l by auto
    qed
  qed
  have thr: "snd (issue64 c Symbol now now m) = purgeExpired64 now m"
    by (simp add: issue64_throws)
  show ?thesis
    using all_live_purgeExpired64 [OF assms(1), of now] all_live_useOnce64 [OF assms(1), of now c]
      o g nonpos pos thr
    by blast
qed

theorem only_live_entries_after_operation_witness:
  "store_ok64 [(7, \<lparr>expiresAt64 = Fin64 (201 / 2), used64 = False\<rparr>),
               (8, \<lparr>expiresAt64 = Fin64 15, used64 = False\<rparr>)]
   \<and> time_value 20
   \<and> ToNumber (Number (Fin64 500)) = Inr (Fin64 500)
   \<and> purgeExpired64 20 [(7, \<lparr>expiresAt64 = Fin64 (201 / 2), used64 = False\<rparr>),
                          (8, \<lparr>expiresAt64 = Fin64 15, used64 = False\<rparr>)]
       = [(7, \<lparr>expiresAt64 = Fin64 (201 / 2), used64 = False\<rparr>)]
   \<and> le64 (Fin64 1) (capped (Fin64 500))
   \<and> snd (issue64 9 (Number (Fin64 500)) 20 20
          [(7, \<lparr>expiresAt64 = Fin64 (201 / 2), used64 = False\<rparr>),
           (8, \<lparr>expiresAt64 = Fin64 15, used64 = False\<rparr>)])
       = [(7, \<lparr>expiresAt64 = Fin64 (201 / 2), used64 = False\<rparr>),
          (9, \<lparr>expiresAt64 = Fin64 520, used64 = False\<rparr>)]
   \<and> list_all (\<lambda>kv. live64 20 (snd kv)) (snd (issue64 9 (Number (Fin64 500)) 20 20
          [(7, \<lparr>expiresAt64 = Fin64 (201 / 2), used64 = False\<rparr>),
           (8, \<lparr>expiresAt64 = Fin64 15, used64 = False\<rparr>)]))
   \<and> list_all (\<lambda>kv. live64 20 (snd kv)) (snd (useOnce64 9 20 20 20
          [(7, \<lparr>expiresAt64 = Fin64 (201 / 2), used64 = False\<rparr>),
           (8, \<lparr>expiresAt64 = Fin64 15, used64 = False\<rparr>)]))
   \<and> ToNumber (Number (Fin64 (- (1 / 2)))) = Inr (Fin64 (- (1 / 2)))
   \<and> lt64 (Fin64 0) (capped (Fin64 (- (1 / 2)))) = False
   \<and> live64 20 \<lparr>expiresAt64 = add64 (Fin64 20) (capped (Fin64 (- (1 / 2)))), used64 = False\<rparr>
       = False"
proof -
  let ?m = "[(7, \<lparr>expiresAt64 = Fin64 (201 / 2), used64 = False\<rparr>),
             (8, \<lparr>expiresAt64 = Fin64 15, used64 = False\<rparr>)]"
  have ok: "store_ok64 ?m" by (simp add: store_ok64_def)
  have tv: "time_value 20" by (simp add: time_value_def)
  have n1: "ToNumber (Number (Fin64 500)) = Inr (Fin64 500)" by simp
  have n2: "ToNumber (Number (Fin64 (- (1 / 2)))) = Inr (Fin64 (- (1 / 2)))" by simp
  have p: "purgeExpired64 20 ?m = [(7, \<lparr>expiresAt64 = Fin64 (201 / 2), used64 = False\<rparr>)]"
    by (simp add: purgeExpired64_def purge_visit64_def purge_step64_def le64_def)
  have c: "capped (Fin64 500) = Fin64 500"
    by (simp add: capped_def Math_min64_def or_zero64_def MAX_MS_def)
  have c': "capped (Fin64 (- (1 / 2))) = Fin64 (- (1 / 2))"
    by (simp add: capped_def Math_min64_def or_zero64_def MAX_MS_def)
  have pos: "le64 (Fin64 1) (capped (Fin64 500))" by (simp add: c le64_def)
  have npos: "lt64 (Fin64 0) (capped (Fin64 (- (1 / 2)))) = False" by (simp add: c')
  have "to_double 520 = Fin64 520" using to_double_of_int [of 520] by simp
  then have s: "snd (issue64 9 (Number (Fin64 500)) 20 20 ?m)
       = [(7, \<lparr>expiresAt64 = Fin64 (201 / 2), used64 = False\<rparr>),
          (9, \<lparr>expiresAt64 = Fin64 520, used64 = False\<rparr>)]"
    by (simp add: issue64_cases [OF n1] c p)
  note t1 = only_live_entries_after_operation [OF ok tv n1, of 9, unfolded of_int_numeral]
  note t2 = only_live_entries_after_operation [OF ok tv n2, of 9, unfolded of_int_numeral]
  have a: "list_all (\<lambda>kv. live64 20 (snd kv)) (snd (issue64 9 (Number (Fin64 500)) 20 20 ?m))"
    using t1 pos by blast
  have b: "list_all (\<lambda>kv. live64 20 (snd kv)) (snd (useOnce64 9 20 20 20 ?m))"
    using t1 by blast
  have d: "live64 20 \<lparr>expiresAt64 = add64 (Fin64 20) (capped (Fin64 (- (1 / 2)))), used64 = False\<rparr>
       = False"
    using t2 npos by blast
  show ?thesis
    by (intro conjI) (rule ok, rule tv, rule n1, rule p, rule pos, rule s, rule a, rule b,
        rule n2, rule npos, rule d)
qed

text \<open>
  The claim as written fails for \<open>issue\<close> with an effective duration of zero: on the empty
  store at time 1000, \<open>issue\<close> with the duration 0, or with none, leaves the entry it wrote,
  whose expiry 1000 is not greater than the current time.
\<close>

theorem issue_leaves_expired_entry_counterexample:
  "snd (issue64 1 (Number (Fin64 0)) 1000 1000 createOtpStore64)
     = [(1, \<lparr>expiresAt64 = Fin64 1000, used64 = False\<rparr>)]
   \<and> snd (issue64 1 Undefined 1000 1000 createOtpStore64)
     = [(1, \<lparr>expiresAt64 = Fin64 1000, used64 = False\<rparr>)]
   \<and> live64 1000 \<lparr>expiresAt64 = Fin64 1000, used64 = False\<rparr> = False
   \<and> gt64 (Fin64 1000) (Fin64 1000) = False"
proof -
  have "to_double 1000 = Fin64 1000" using to_double_of_int [of 1000] by simp
  then show ?thesis
    by (simp add: createOtpStore64_def issue64_def cappedDuration64_def capped_def Math_min64_def
        or_zero64_def MAX_MS_def purgeExpired64_def purge_visit64_def live64_def gt64_def)
qed

text \<open>
  A positive duration is not enough for the entry to be live: \<open>issue\<close> with
  \<open>2 powi (- 14)\<close> ms at the time value 1793577600000 stores that time value as the expiry.
\<close>

lemma tiny_duration_entry_not_live:
  "snd (issue64 1 (Number (Fin64 (1 / 16384))) 1793577600000 1793577600000 createOtpStore64)
     = [(1, \<lparr>expiresAt64 = Fin64 1793577600000, used64 = False\<rparr>)]
   \<and> lt64 (Fin64 0) (capped (Fin64 (1 / 16384)))
   \<and> live64 1793577600000 \<lparr>expiresAt64 = Fin64 1793577600000, used64 = False\<rparr> = False"
proof -
  have c: "capped (Fin64 (1 / 16384)) = Fin64 (1 / 16384)"
    by (simp add: capped_def Math_min64_def or_zero64_def MAX_MS_def)
  have n: "ToNumber (Number (Fin64 (1 / 16384))) = Inr (Fin64 (1 / 16384))" by simp
  have a: "add64 (Fin64 1793577600000) (Fin64 (1 / 16384)) = Fin64 1793577600000"
    using fraction_lost_in_rounding by blast
  have "snd (issue64 1 (Number (Fin64 (1 / 16384))) 1793577600000 1793577600000 createOtpStore64)
     = [(1, \<lparr>expiresAt64 = Fin64 1793577600000, used64 = False\<rparr>)]"
    unfolding issue64_cases [OF n] c of_int_numeral a
    by (simp add: createOtpStore64_def purgeExpired64_def purge_visit64_def)
  then show ?thesis by (simp add: c live64_def gt64_def)
qed

subsection \<open>The two models agree on whole milliseconds\<close>

lemma lt64_to64: "lt64 (to64 a) (to64 b) = js_lt a b"
  by (cases a; cases b) simp_all

lemma to64_eq_NaN64: "(to64 a = NaN64) = (a = NaN)"
  by (cases a) simp_all

lemma le64_to64: "le64 (to64 a) (Fin64 (of_int t)) = js_le a (Fin t)"
  using lt64_to64 [of "Fin t" a] by (simp add: le64_def js_le_def to64_eq_NaN64)

lemma gt64_to64: "gt64 (to64 a) (Fin64 (of_int t)) = js_gt a (Fin t)"
  using lt64_to64 [of "Fin t" a] by (simp add: gt64_def js_gt_def)

lemma stale64_to64: "stale64 now (entry_to64 e) = stale now e"
  by (simp add: stale64_def stale_def entry_to64_def le64_to64)

lemma live64_to64: "live64 now (entry_to64 e) = live now e"
  by (simp add: live64_def live_def entry_to64_def gt64_to64)

lemma purgeExpired64_to64: "purgeExpired64 now (store_to64 m) = store_to64 (purgeExpired now m)"
proof -
  show ?thesis
    unfolding purgeExpired_keyfilter64 purgeExpired_keyfilter
    by (simp add: store_to64_def filter_map comp_def stale64_to64)
qed

lemma Map_get64_to64: "Map_get64 (store_to64 m) k = map_option entry_to64 (Map_get m k)"
  by (induction m) (auto simp: store_to64_def)

lemma Map_set64_to64: "Map_set64 k (entry_to64 v) (store_to64 m) = store_to64 (Map_set k v m)"
  by (induction m) (auto simp: store_to64_def)

lemma Map_delete64_to64: "Map_delete64 k (store_to64 m) = store_to64 (Map_delete k m)"
  by (induction m) (auto simp: store_to64_def)

lemma ToNumber_argument_of: "ToNumber (argument_of d) = Inr (to64 (Number_js d))"
  by (cases d) simp_all

lemma capped_to64: "capped (to64 (Number_js d)) = to64 (cappedDuration d)"
  by (cases "Number_js d")
    (auto simp: capped_def cappedDuration_def Math_min64_def Math_min_def or_zero64_def or_zero_def)

lemma expiry_to64:
  assumes "exact_expiry t d"
  shows "add64 (Fin64 (of_int t)) (to64 (cappedDuration d)) = to64 (js_add (Fin t) (cappedDuration d))"
proof (cases "cappedDuration d")
  case (Fin c)
  then have "\<bar>t + c\<bar> \<le> 2 ^ 53" using assms by (simp add: exact_expiry_def)
  then have "to_double (of_int (t + c)) = Fin64 (of_int (t + c))" by (rule to_double_of_int)
  then show ?thesis using Fin by simp
qed (use cappedDuration_cases [of d] in auto)

text \<open>
  On a store of whole milliseconds, the operations on doubles do what the operations on
  whole milliseconds do: \<open>useOnce\<close> always, \<open>issue\<close> whenever the sum for the new expiry
  is a double, which holds for every time value and every whole duration of magnitude up to
  \<open>3.6e14\<close> ms.
\<close>

lemma useOnce64_agrees:
  "useOnce64 c t0 t1 t2 (store_to64 m)
     = (fst (useOnce c t0 t1 t2 m), store_to64 (snd (useOnce c t0 t1 t2 m)))"
proof (cases "Map_get (purgeExpired t0 m) c")
  case None
  then show ?thesis
    by (simp add: useOnce_cases64 useOnce_cases purgeExpired64_to64 Map_get64_to64)
next
  case (Some e)
  have "entry_to64 e\<lparr>used64 := True\<rparr> = entry_to64 (e\<lparr>used := True\<rparr>)"
    by (simp add: entry_to64_def)
  then show ?thesis
    using Some
    by (simp add: useOnce_cases64 useOnce_cases purgeExpired64_to64 Map_get64_to64
        stale64_to64 Map_delete64_to64 Map_set64_to64)
qed

lemma issue64_agrees:
  assumes "exact_expiry t1 d"
  shows "issue64 c (argument_of d) t0 t1 (store_to64 m)
     = (Inr (fst (issue c d t0 t1 m)), store_to64 (snd (issue c d t0 t1 m)))"
proof -
  let ?new = "\<lparr>expiresAt = js_add (Fin t1) (cappedDuration d), used = False\<rparr>"
  have new: "\<lparr>expiresAt64 = add64 (Fin64 (of_int t1)) (capped (to64 (Number_js d))), used64 = False\<rparr>
      = entry_to64 ?new"
    using assms by (simp add: entry_to64_def capped_to64 expiry_to64)
  have ex: "(case Map_get64 (store_to64 (purgeExpired t0 m)) c of None \<Rightarrow> False | Some e \<Rightarrow> live64 t1 e)
      = (case Map_get (purgeExpired t0 m) c of None \<Rightarrow> False | Some e \<Rightarrow> live t1 e)"
    by (simp add: Map_get64_to64 live64_to64 split: option.splits)
  show ?thesis
    unfolding issue64_cases [OF ToNumber_argument_of] issue_cases purgeExpired64_to64 new ex
    by (simp add: Map_set64_to64)
qed

lemma time_value_exact_expiry:
  assumes "time_value t" and "\<bar>n\<bar> \<le> 360000000000000"
  shows "exact_expiry t (JSNumber (Fin n))"
  using assms by (simp add: exact_expiry_def cappedDuration_Fin time_value_def MAX_MS_def)

end
